theory Spec2Isabelle
  imports Main "HOL-Library.Monad_Syntax"
begin

section \<open>Constants and C strings\<close>

text \<open>The three sizes of \<^verbatim>\<open>server.c\<close> and \<^verbatim>\<open>client.c\<close>.\<close>

definition MAX_CLIENTS :: nat where
  "MAX_CLIENTS = 1024"

definition BUF_SIZE :: nat where
  "BUF_SIZE = 4096"

definition NAME_LEN :: nat where
  "NAME_LEN = 32"

text \<open>
  A \<^verbatim>\<open>char\<close> buffer is a list of bytes. Where the code reads a buffer as a C
  string (\<^verbatim>\<open>%s\<close>, \<^verbatim>\<open>strcmp\<close>, \<^verbatim>\<open>strlen\<close>, \<^verbatim>\<open>strcat\<close>) it sees the bytes before the first
  NUL: \<open>c_str\<close>.
\<close>

definition c_str :: "string \<Rightarrow> string" where
  "c_str s = takeWhile (\<lambda>c. c \<noteq> CHR 0x00) s"

text \<open>
  \<^verbatim>\<open>snprintf(out, n, ...)\<close> stores at most \<open>n - 1\<close> bytes of the formatted text and a
  terminator; the argument here is the whole formatted text.
\<close>

definition c_snprintf :: "nat \<Rightarrow> string \<Rightarrow> string" where
  "c_snprintf n s = take (n - 1) s"

text \<open>
  \<^verbatim>\<open>strncpy(dst, src, n)\<close> writes \<open>n\<close> bytes of \<open>dst\<close>: the C string \<open>src\<close>, at most
  \<open>n\<close> bytes of it, padded with NUL. The result here is the bytes written before
  the first NUL. With fewer than \<open>n\<close> of them \<open>dst\<close> holds this terminated string;
  with \<open>n\<close> of them no terminator was written, and the callers say what follows.
\<close>

definition c_strncpy :: "string \<Rightarrow> nat \<Rightarrow> string" where
  "c_strncpy src n = take n (c_str src)"

text \<open>
  One \<^verbatim>\<open>recv\<close> on a socket: bytes, an orderly close (0) or an error (-1).
  \<open>c_recv n r\<close> is the buffer content when the call returned \<open>r > 0\<close> bytes, and
  \<open>None\<close> on the branch \<^verbatim>\<open>r <= 0\<close>. \<^verbatim>\<open>recv\<close> never returns more than the \<open>n\<close>
  bytes asked for.
\<close>

datatype recv_result = Bytes string | Eof | Error

fun c_recv :: "nat \<Rightarrow> recv_result \<Rightarrow> string option" where
  "c_recv n (Bytes bs) = (if bs = [] then None else Some (take n bs))"
| "c_recv n Eof = None"
| "c_recv n Error = None"

section \<open>The server state\<close>

text \<open>
  \<^verbatim>\<open>client_t\<close> is a record; \<open>name\<close> is the C string held in \<^verbatim>\<open>name[NAME_LEN]\<close>.
  The global \<^verbatim>\<open>clients[MAX_CLIENTS]\<close> is a list of slots, each \<^verbatim>\<open>NULL\<close> or a pointer;
  pointers are addresses into \<open>heap\<close>, since a session writes \<^verbatim>\<open>cli->name\<close> through
  its own pointer while the table holds the same pointer. \<open>threads\<close> is the control
  state of the detached session threads: where the thread of a client stands in
  \<^verbatim>\<open>handle_client\<close>. \<open>trace\<close> lists what the server did to the outside, in order:
  a write to a socket, a line handed to \<^verbatim>\<open>log_msg\<close>, a \<^verbatim>\<open>close\<close>.

  Every operation returns \<open>None\<close> where the source does not determine what the code
  does: reading through a pointer that is not allocated, overflowing
  \<^verbatim>\<open>list[BUF_SIZE]\<close> in \<^verbatim>\<open>notify_userlist\<close>, and reading a name that has no
  terminator in \<^verbatim>\<open>name[NAME_LEN]\<close>.

  The mutex makes each scan of the table atomic; the model runs one thread at a time
  between two \<^verbatim>\<open>recv\<close> calls, so it covers the interleavings of whole session steps.
  \<^verbatim>\<open>add_client\<close> and \<^verbatim>\<open>remove_client\<close> hold the mutex three times, for the change of
  the table, for the first loop of \<^verbatim>\<open>notify_userlist\<close> and for its second loop; the
  three loops are functions of their own (\<open>add_loop\<close> and \<open>remove_loop\<close>,
  \<open>userlist_loop\<close>, \<open>send_all\<close>), so that a statement about one of them holds in
  whatever state another thread has left.
\<close>

record client_t =
  sock :: int
  name :: string

datatype event = Send int string | Log string | Close int

datatype pc = AwaitingName | InLoop

record server =
  clients :: "nat option list"
  heap :: "nat \<Rightarrow> client_t option"
  threads :: "nat \<Rightarrow> pc option"
  trace :: "event list"

definition init_server :: server where
  "init_server = \<lparr>clients = replicate MAX_CLIENTS None, heap = (\<lambda>p. None),
     threads = (\<lambda>p. None), trace = []\<rparr>"

section \<open>server.c\<close>

text \<open>\<^verbatim>\<open>log_msg\<close> hands one line to the transcript (time stamp and file are outside).\<close>

definition log_msg :: "string \<Rightarrow> server \<Rightarrow> server" where
  "log_msg s st = st\<lparr>trace := trace st @ [Log s]\<rparr>"

text \<open>\<^verbatim>\<open>send_to_sock\<close>: one write; a failed \<^verbatim>\<open>send\<close> is reported and ignored.\<close>

definition send_to_sock :: "int \<Rightarrow> string \<Rightarrow> server \<Rightarrow> server" where
  "send_to_sock k msg st = st\<lparr>trace := trace st @ [Send k msg]\<rparr>"

text \<open>
  The loop \<^verbatim>\<open>for i: if (clients[i]) send_to_sock(clients[i]->sock, msg)\<close> of
  \<^verbatim>\<open>broadcast\<close> and of \<^verbatim>\<open>notify_userlist\<close>, over the slots that remain.
\<close>

fun send_all :: "nat option list \<Rightarrow> string \<Rightarrow> server \<Rightarrow> server option" where
  "send_all [] msg st = Some st"
| "send_all (None # cs) msg st = send_all cs msg st"
| "send_all (Some p # cs) msg st =
     (case heap st p of
        None \<Rightarrow> None
      | Some c \<Rightarrow> send_all cs msg (send_to_sock (sock c) msg st))"

text \<open>
  \<^verbatim>\<open>broadcast\<close>: the line \<^verbatim>\<open>snprintf(out, sizeof(out), "%s: %s\n", sender, msg)\<close>, written
  to every slot that is not \<^verbatim>\<open>NULL\<close> and then logged.
\<close>

definition broadcast_line :: "string \<Rightarrow> string \<Rightarrow> string" where
  "broadcast_line sender msg =
     c_snprintf (BUF_SIZE + 128) (c_str sender @ '': '' @ c_str msg @ [CHR 0x0A])"

definition broadcast :: "string \<Rightarrow> string \<Rightarrow> server \<Rightarrow> server option" where
  "broadcast sender msg st =
     (let out = broadcast_line sender msg
      in do { st1 \<leftarrow> send_all (clients st) out st; Some (log_msg out st1) })"

text \<open>\<^verbatim>\<open>find_by_name\<close>: the first slot whose client has the name.\<close>

fun find_loop :: "(nat \<Rightarrow> client_t option) \<Rightarrow> nat option list \<Rightarrow> string \<Rightarrow> nat option option" where
  "find_loop h [] nm = Some None"
| "find_loop h (None # cs) nm = find_loop h cs nm"
| "find_loop h (Some p # cs) nm =
     (case h p of
        None \<Rightarrow> None
      | Some c \<Rightarrow> if name c = c_str nm then Some (Some p) else find_loop h cs nm)"

definition find_by_name :: "string \<Rightarrow> server \<Rightarrow> nat option option" where
  "find_by_name nm st = find_loop (heap st) (clients st) nm"

text \<open>
  The first loop of \<^verbatim>\<open>notify_userlist\<close>: \<^verbatim>\<open>strcat\<close> of each name and a comma onto
  \<^verbatim>\<open>list[BUF_SIZE]\<close>, which must keep room for the terminator.
\<close>

fun userlist_loop :: "(nat \<Rightarrow> client_t option) \<Rightarrow> nat option list \<Rightarrow> string \<Rightarrow> string option" where
  "userlist_loop h [] list = Some list"
| "userlist_loop h (None # cs) list = userlist_loop h cs list"
| "userlist_loop h (Some p # cs) list =
     (case h p of
        None \<Rightarrow> None
      | Some c \<Rightarrow>
          if length (list @ name c @ '','') < BUF_SIZE
          then userlist_loop h cs (list @ name c @ '','')
          else None)"

definition notify_userlist :: "server \<Rightarrow> server option" where
  "notify_userlist st =
     do { list \<leftarrow> userlist_loop (heap st) (clients st) (CHR 0x01 # ''USERS:'');
          send_all (clients st) list st }"

text \<open>The loop of \<^verbatim>\<open>add_client\<close>: the first free slot takes the pointer, if there is one.\<close>

fun add_loop :: "nat option list \<Rightarrow> nat \<Rightarrow> nat option list" where
  "add_loop [] cl = []"
| "add_loop (None # cs) cl = Some cl # cs"
| "add_loop (Some p # cs) cl = Some p # add_loop cs cl"

definition add_client :: "nat \<Rightarrow> server \<Rightarrow> server option" where
  "add_client cl st = notify_userlist (st\<lparr>clients := add_loop (clients st) cl\<rparr>)"

text \<open>The loop of \<^verbatim>\<open>remove_client\<close>: the first slot holding the pointer is cleared.\<close>

fun remove_loop :: "nat option list \<Rightarrow> nat \<Rightarrow> nat option list" where
  "remove_loop [] cl = []"
| "remove_loop (x # cs) cl = (if x = Some cl then None # cs else x # remove_loop cs cl)"

definition remove_client :: "nat \<Rightarrow> server \<Rightarrow> server option" where
  "remove_client cl st = notify_userlist (st\<lparr>clients := remove_loop (clients st) cl\<rparr>)"

text \<open>
  The scan \<^verbatim>\<open>while (i < len && buf[i] != ' ' && j < NAME_LEN-1) target[j++] = buf[i++]\<close>;
  \<open>target\<close> is the part of the array written so far (\<open>j\<close> is its length), and the
  result is the array and the final \<open>i\<close>.
\<close>

function parse_target :: "string \<Rightarrow> nat \<Rightarrow> string \<Rightarrow> string \<times> nat" where
  "parse_target buf i target =
     (if i < length buf \<and> buf ! i \<noteq> CHR '' '' \<and> length target < NAME_LEN - 1
      then parse_target buf (i + 1) (target @ [buf ! i])
      else (target, i))"
  by pat_completeness auto
termination
  by (relation "measure (\<lambda>(buf, i, target). length buf - i)") auto

text \<open>
  The private branch up to \<^verbatim>\<open>char *message = buf + i\<close>: the array \<open>target\<close> and
  the bytes \<open>message\<close> points to.
\<close>

definition parse_private :: "string \<Rightarrow> string \<times> string" where
  "parse_private buf = (let (target, i) = parse_target buf 1 [] in (target, drop i buf))"

text \<open>
  \<^verbatim>\<open>snprintf(out, sizeof(out), "(private) %s -> %s: %s\n", cli->name, target, message)\<close>.
\<close>

definition private_line :: "string \<Rightarrow> string \<Rightarrow> string \<Rightarrow> string" where
  "private_line sender target message =
     c_snprintf (BUF_SIZE + 64)
       (''(private) '' @ c_str sender @ '' -> '' @ c_str target @ '': '' @ c_str message @
        [CHR 0x0A])"

text \<open>
  The body of the \<^verbatim>\<open>while (1)\<close> loop of \<^verbatim>\<open>handle_client\<close> after a read of
  \<open>len > 0\<close> bytes into \<open>buf\<close>: a private message, or a public broadcast.
\<close>

definition handle_message :: "nat \<Rightarrow> string \<Rightarrow> server \<Rightarrow> server option" where
  "handle_message cli buf st =
     (case heap st cli of
        None \<Rightarrow> None
      | Some c \<Rightarrow>
          if hd buf = CHR ''@'' then
            (let (target, message) = parse_private buf
             in do {
               rcv \<leftarrow> find_by_name target st;
               let out = private_line (name c) target message;
               let st1 = log_msg out st;
               st2 \<leftarrow> (case rcv of
                         None \<Rightarrow> Some st1
                       | Some r \<Rightarrow>
                           (case heap st1 r of
                              None \<Rightarrow> None
                            | Some rc \<Rightarrow> Some (send_to_sock (sock rc) out st1)));
               Some (send_to_sock (sock c) out st2)
             })
          else broadcast (name c) buf st)"

text \<open>\<^verbatim>\<open>close(cli->sock)\<close> and \<^verbatim>\<open>free(cli)\<close>; the thread ends when \<^verbatim>\<open>handle_client\<close> returns.\<close>

definition c_close :: "int \<Rightarrow> server \<Rightarrow> server" where
  "c_close k st = st\<lparr>trace := trace st @ [Close k]\<rparr>"

definition c_free :: "nat \<Rightarrow> server \<Rightarrow> server" where
  "c_free p st = st\<lparr>heap := (heap st)(p := None)\<rparr>"

definition thread_exit :: "nat \<Rightarrow> server \<Rightarrow> server" where
  "thread_exit p st = st\<lparr>threads := (threads st)(p := None)\<rparr>"

text \<open>
  The head of \<^verbatim>\<open>handle_client\<close>: the read of the name and the join announcement.
  \<^verbatim>\<open>strncpy(cli->name, buf, NAME_LEN-1)\<close> writes \<^verbatim>\<open>name[0]\<close> to \<^verbatim>\<open>name[30]\<close>, and
  \<^verbatim>\<open>name[31]\<close> of the block from \<^verbatim>\<open>malloc\<close> is assigned nowhere. When the read brought
  \<open>NAME_LEN - 1\<close> bytes with no NUL among them, the \<^verbatim>\<open>snprintf\<close> that follows reads
  this byte, and runs past the array unless it is NUL: the result is \<open>None\<close>.
\<close>

definition handle_client_name :: "nat \<Rightarrow> recv_result \<Rightarrow> server \<Rightarrow> server option" where
  "handle_client_name cli r st =
     (case heap st cli of
        None \<Rightarrow> None
      | Some c \<Rightarrow>
          (case c_recv (NAME_LEN - 1) r of
             None \<Rightarrow>
               do { st1 \<leftarrow> remove_client cli (c_close (sock c) st);
                    Some (thread_exit cli (c_free cli st1)) }
           | Some buf \<Rightarrow>
               if length (c_str buf) < NAME_LEN - 1 then
                 (let nm = c_strncpy buf (NAME_LEN - 1);
                      st1 = st\<lparr>heap := (heap st)(cli \<mapsto> c\<lparr>name := nm\<rparr>)\<rparr>;
                      joinmsg = c_snprintf 128 (''*** '' @ nm @ '' joined'')
                  in do { st2 \<leftarrow> broadcast ''server'' joinmsg st1;
                          Some (st2\<lparr>threads := (threads st2)(cli \<mapsto> InLoop)\<rparr>) })
               else None))"

text \<open>The tail of \<^verbatim>\<open>handle_client\<close>, after the loop: the disconnect.\<close>

definition handle_client_disconnect :: "nat \<Rightarrow> server \<Rightarrow> server option" where
  "handle_client_disconnect cli st =
     (case heap st cli of
        None \<Rightarrow> None
      | Some c \<Rightarrow>
          (let st1 = c_close (sock c) st;
               leavemsg = c_snprintf 128 (''*** '' @ name c @ '' left'')
           in do { st2 \<leftarrow> broadcast ''server'' leavemsg st1;
                   st3 \<leftarrow> remove_client cli st2;
                   Some (thread_exit cli (c_free cli st3)) }))"

text \<open>One turn of the \<^verbatim>\<open>while (1)\<close> loop: a read, then the message or the disconnect.\<close>

definition handle_client_loop :: "nat \<Rightarrow> recv_result \<Rightarrow> server \<Rightarrow> server option" where
  "handle_client_loop cli r st =
     (case c_recv (BUF_SIZE - 1) r of
        None \<Rightarrow> handle_client_disconnect cli st
      | Some buf \<Rightarrow> handle_message cli buf st)"

text \<open>
  \<^verbatim>\<open>handle_client\<close> as a whole, for the results \<open>rs\<close> of the reads on its socket:
  the name, then the loop until a read fails. With no result left the thread is
  blocked in \<^verbatim>\<open>recv\<close>.
\<close>

fun handle_client_while :: "nat \<Rightarrow> recv_result list \<Rightarrow> server \<Rightarrow> server option" where
  "handle_client_while cli [] st = Some st"
| "handle_client_while cli (r # rs) st =
     (case c_recv (BUF_SIZE - 1) r of
        None \<Rightarrow> handle_client_disconnect cli st
      | Some buf \<Rightarrow> do { st1 \<leftarrow> handle_message cli buf st; handle_client_while cli rs st1 })"

fun handle_client :: "nat \<Rightarrow> recv_result list \<Rightarrow> server \<Rightarrow> server option" where
  "handle_client cli [] st = Some st"
| "handle_client cli (r # rs) st =
     (case c_recv (NAME_LEN - 1) r of
        None \<Rightarrow> handle_client_name cli r st
      | Some buf \<Rightarrow> do { st1 \<leftarrow> handle_client_name cli r st; handle_client_while cli rs st1 })"

text \<open>
  One turn of the accept loop of \<^verbatim>\<open>main\<close>: \<^verbatim>\<open>accept\<close> returned \<open>conn\<close> and \<^verbatim>\<open>malloc\<close>
  returned the block \<open>p\<close>. \<^verbatim>\<open>malloc\<close> never returns a live block, so a \<open>p\<close> that is
  allocated is no input of the code.
\<close>

definition main_accept :: "int \<Rightarrow> nat \<Rightarrow> server \<Rightarrow> server option" where
  "main_accept conn p st =
     (if conn < 0 then Some st
      else if heap st p \<noteq> None then None
      else do { st1 \<leftarrow> add_client p (st\<lparr>heap := (heap st)(p \<mapsto> \<lparr>sock = conn, name = []\<rparr>)\<rparr>);
                Some (st1\<lparr>threads := (threads st1)(p \<mapsto> AwaitingName)\<rparr>) })"

text \<open>
  The server as a machine: an input is a connection accepted by \<^verbatim>\<open>main\<close> or the
  result of the \<^verbatim>\<open>recv\<close> a session thread is blocked in.
\<close>

datatype input = Conn int nat | Rx nat recv_result

fun step :: "input \<Rightarrow> server \<Rightarrow> server option" where
  "step (Conn conn p) st = main_accept conn p st"
| "step (Rx cli r) st =
     (case threads st cli of
        None \<Rightarrow> Some st
      | Some AwaitingName \<Rightarrow> handle_client_name cli r st
      | Some InLoop \<Rightarrow> handle_client_loop cli r st)"

fun run :: "input list \<Rightarrow> server \<Rightarrow> server option" where
  "run [] st = Some st"
| "run (i # is) st = (case step i st of None \<Rightarrow> None | Some st1 \<Rightarrow> run is st1)"

section \<open>client.c\<close>

text \<open>
  The receiving side. \<open>users\<close> is the rows of the right window under the heading,
  \<open>center\<close> the lines appended to the chat window.
\<close>

record client_ui =
  users :: "string list"
  center :: "string list"

text \<open>
  All tokens that \<^verbatim>\<open>strtok(tmp, ",")\<close> and then \<^verbatim>\<open>strtok(NULL, ",")\<close> return: skip
  the commas; the first byte \<open>x\<close> that is no comma starts a token, which runs up to
  the next comma; go on behind it.
\<close>

function strtok_all :: "string \<Rightarrow> string list" where
  "strtok_all s =
     (case dropWhile (\<lambda>c. c = CHR '','') s of
        [] \<Rightarrow> []
      | x # xs \<Rightarrow>
          (x # takeWhile (\<lambda>c. c \<noteq> CHR '','') xs) #
          strtok_all (dropWhile (\<lambda>c. c \<noteq> CHR '','') xs))"
  by pat_completeness auto
termination
proof (relation "measure length")
  show "wf (measure length)" by simp
next
  fix s :: string and x xs
  assume a: "dropWhile (\<lambda>c. c = CHR '','') s = x # xs"
  have "length (dropWhile (\<lambda>c. c \<noteq> CHR '','') xs) \<le> length xs"
    by (rule length_dropWhile_le)
  moreover have "length (x # xs) \<le> length s"
    using length_dropWhile_le [of "\<lambda>c. c = CHR '',''" s] a by simp
  ultimately show "(dropWhile (\<lambda>c. c \<noteq> CHR '','') xs, s) \<in> measure length"
    by simp
qed

definition update_userlist :: "string \<Rightarrow> client_ui \<Rightarrow> client_ui" where
  "update_userlist csv ui =
     ui\<lparr>users := filter (\<lambda>p. length p > 0) (strtok_all (c_strncpy csv (BUF_SIZE - 1)))\<rparr>"

definition append_center :: "string \<Rightarrow> client_ui \<Rightarrow> client_ui" where
  "append_center s ui = ui\<lparr>center := center ui @ [c_str s]\<rparr>"

text \<open>One turn of \<^verbatim>\<open>recv_thread\<close> after a read of \<open>r > 0\<close> bytes into \<open>buf\<close>.\<close>

definition recv_thread :: "string \<Rightarrow> client_ui \<Rightarrow> client_ui" where
  "recv_thread buf ui =
     (if hd buf = CHR 0x01 \<and> take 6 (c_str (drop 1 buf)) = ''USERS:''
      then update_userlist (drop 7 buf) ui
      else append_center buf ui)"


section \<open>Vocabulary of the statements\<close>

text \<open>The pointers in the table, in slot order: what a scan of the table visits.\<close>

fun registered :: "nat option list \<Rightarrow> nat list" where
  "registered [] = []"
| "registered (None # cs) = registered cs"
| "registered (Some p # cs) = p # registered cs"

text \<open>
  The user list line for the client records \<open>rs\<close>: the control byte, \<open>USERS:\<close>, and
  every name followed by a comma.
\<close>

definition userlist_line :: "client_t list \<Rightarrow> string" where
  "userlist_line rs = CHR 0x01 # ''USERS:'' @ concat (map (\<lambda>c. name c @ '','') rs)"

text \<open>
  The invariant of the table: no pointer stands in two slots, and every pointer in
  it is allocated.
\<close>

definition table_ok :: "server \<Rightarrow> bool" where
  "table_ok st =
     (distinct (registered (clients st)) \<and>
      list_all (\<lambda>p. heap st p \<noteq> None) (registered (clients st)))"

text \<open>A join or leave announcement: a write or a log line of the server's \<open>***\<close> notices.\<close>

fun is_announcement :: "event \<Rightarrow> bool" where
  "is_announcement (Send k m) = (take 12 m = ''server: *** '')"
| "is_announcement (Log m) = (take 12 m = ''server: *** '')"
| "is_announcement (Close k) = False"

text \<open>
  A full table: \<^verbatim>\<open>MAX_CLIENTS\<close> connections were accepted and none has sent its name
  yet. Client \<open>p\<close> has socket \<open>p + 4\<close> and stands in slot \<open>p\<close>.
\<close>

definition full_server :: server where
  "full_server =
     \<lparr>clients = map Some [0..<MAX_CLIENTS],
      heap = (\<lambda>p. if p < MAX_CLIENTS then Some \<lparr>sock = int p + 4, name = []\<rparr> else None),
      threads = (\<lambda>p. if p < MAX_CLIENTS then Some AwaitingName else None),
      trace = []\<rparr>"


text \<open>
  A full table of clients that have all joined under the name \<open>nm\<close>.
\<close>

definition full_named :: "string \<Rightarrow> server" where
  "full_named nm =
     \<lparr>clients = map Some [0..<MAX_CLIENTS],
      heap = (\<lambda>p. if p < MAX_CLIENTS then Some \<lparr>sock = int p + 4, name = nm\<rparr> else None),
      threads = (\<lambda>p. if p < MAX_CLIENTS then Some InLoop else None),
      trace = []\<rparr>"

text \<open>
  Two clients in the loop of \<^verbatim>\<open>handle_client\<close>: \<open>alice\<close> (block 0, socket 5, slot 0)
  and \<open>bob\<close> (block 1, socket 6, slot 1).
\<close>

definition two_clients :: server where
  "two_clients =
     \<lparr>clients = Some 0 # Some 1 # replicate (MAX_CLIENTS - 2) None,
      heap = [0 \<mapsto> \<lparr>sock = 5, name = ''alice''\<rparr>, 1 \<mapsto> \<lparr>sock = 6, name = ''bob''\<rparr>],
      threads = [0 \<mapsto> InLoop, 1 \<mapsto> InLoop],
      trace = []\<rparr>"

text \<open>
  Two connections were accepted; the second has joined as \<open>bob\<close>, the first (block
  0, socket 5) has sent nothing yet.
\<close>

definition bob_and_silent :: server where
  "bob_and_silent =
     \<lparr>clients = Some 0 # Some 1 # replicate (MAX_CLIENTS - 2) None,
      heap = [0 \<mapsto> \<lparr>sock = 5, name = []\<rparr>, 1 \<mapsto> \<lparr>sock = 6, name = ''bob''\<rparr>],
      threads = [0 \<mapsto> AwaitingName, 1 \<mapsto> InLoop],
      trace = [Send 5 (CHR 0x01 # ''USERS:,''),
               Send 5 (CHR 0x01 # ''USERS:,,''), Send 6 (CHR 0x01 # ''USERS:,,''),
               Send 5 ''server: *** bob joined\<newline>'', Send 6 ''server: *** bob joined\<newline>'',
               Log ''server: *** bob joined\<newline>'']\<rparr>"

section \<open>The loops in closed form\<close>

lemma send_all_records:
  "map (heap st) (registered cs) = map Some rs \<Longrightarrow>
   send_all cs msg st = Some (st\<lparr>trace := trace st @ map (\<lambda>c. Send (sock c) msg) rs\<rparr>)"
proof (induction cs msg st arbitrary: rs rule: send_all.induct)
  case (1 msg st)
  then show ?case by simp
next
  case (2 cs msg st)
  then show ?case by simp
next
  case (3 p cs msg st)
  from "3.prems" obtain c rs' where rs: "rs = c # rs'" and c: "heap st p = Some c"
    and rest: "map (heap st) (registered cs) = map Some rs'"
    by (cases rs) auto
  have "map (heap (send_to_sock (sock c) msg st)) (registered cs) = map Some rs'"
    using rest by (simp add: send_to_sock_def)
  from "3.IH" [OF c this] show ?case
    using c rs by (simp add: send_to_sock_def)
qed

lemma userlist_loop_records:
  "map h (registered cs) = map Some rs \<Longrightarrow>
   length (list @ concat (map (\<lambda>c. name c @ '','') rs)) < BUF_SIZE \<Longrightarrow>
   userlist_loop h cs list = Some (list @ concat (map (\<lambda>c. name c @ '','') rs))"
proof (induction h cs list arbitrary: rs rule: userlist_loop.induct)
  case (1 h list)
  then show ?case by simp
next
  case (2 h cs list)
  then show ?case by simp
next
  case (3 h p cs list)
  from "3.prems"(1) obtain c rs' where rs: "rs = c # rs'" and c: "h p = Some c"
    and rest: "map h (registered cs) = map Some rs'"
    by (cases rs) auto
  have fit: "length (list @ name c @ '','') < BUF_SIZE"
    using "3.prems"(2) rs by simp
  have "userlist_loop h cs (list @ name c @ '','') =
        Some ((list @ name c @ '','') @ concat (map (\<lambda>c. name c @ '','') rs'))"
    using "3.prems"(2) rs by (intro "3.IH" [OF c fit rest]) simp
  then show ?case
    using c fit rs by simp
qed

lemma userlist_loop_Some:
  "userlist_loop h cs list = Some line \<Longrightarrow>
   \<exists>rs. map h (registered cs) = map Some rs \<and>
        line = list @ concat (map (\<lambda>c. name c @ '','') rs) \<and>
        (length line < BUF_SIZE \<or> line = list)"
proof (induction h cs list arbitrary: line rule: userlist_loop.induct)
  case (1 h list)
  then show ?case by simp
next
  case (2 h cs list)
  then show ?case by simp
next
  case (3 h p cs list)
  from "3.prems" obtain c where c: "h p = Some c"
    and fit: "length (list @ name c @ '','') < BUF_SIZE"
    and rec: "userlist_loop h cs (list @ name c @ '','') = Some line"
    by (auto split: option.splits if_splits)
  from "3.IH" [OF c fit rec] obtain rs where
    rs: "map h (registered cs) = map Some rs"
        "line = (list @ name c @ '','') @ concat (map (\<lambda>c. name c @ '','') rs)"
        "length line < BUF_SIZE \<or> line = list @ name c @ '',''"
    by blast
  have "map h (registered (Some p # cs)) = map Some (c # rs)"
    using c rs(1) by simp
  moreover have "line = list @ concat (map (\<lambda>c. name c @ '','') (c # rs))"
    using rs(2) by simp
  moreover have "length line < BUF_SIZE"
    using rs(3) fit by auto
  ultimately show ?case by blast
qed

lemma notify_userlist_records:
  assumes "map (heap st) (registered (clients st)) = map Some rs"
    and "length (userlist_line rs) < BUF_SIZE"
  shows "notify_userlist st =
         Some (st\<lparr>trace := trace st @ map (\<lambda>c. Send (sock c) (userlist_line rs)) rs\<rparr>)"
proof -
  have "userlist_loop (heap st) (clients st) (CHR 0x01 # ''USERS:'') = Some (userlist_line rs)"
    using userlist_loop_records [OF assms(1), of "CHR 0x01 # ''USERS:''"] assms(2)
    by (simp add: userlist_line_def)
  then show ?thesis
    using send_all_records [OF assms(1)] by (simp add: notify_userlist_def)
qed

lemma userlist_loop_total:
  "map h (registered cs) = map Some rs \<Longrightarrow> length list < BUF_SIZE \<Longrightarrow>
   userlist_loop h cs list =
   (if length (list @ concat (map (\<lambda>c. name c @ '','') rs)) < BUF_SIZE
    then Some (list @ concat (map (\<lambda>c. name c @ '','') rs)) else None)"
proof (induction h cs list arbitrary: rs rule: userlist_loop.induct)
  case (1 h list)
  then show ?case by simp
next
  case (2 h cs list)
  then show ?case by simp
next
  case (3 h p cs list)
  from "3.prems"(1) obtain c rs' where rs: "rs = c # rs'" and c: "h p = Some c"
    and rest: "map h (registered cs) = map Some rs'"
    by (cases rs) auto
  show ?case
  proof (cases "length (list @ name c @ '','') < BUF_SIZE")
    case True
    from "3.IH" [OF c True rest True] c True rs show ?thesis
      by simp
  next
    case False
    then have "\<not> length (list @ concat (map (\<lambda>c. name c @ '','') rs)) < BUF_SIZE"
      using rs by simp
    with False c show ?thesis
      by simp
  qed
qed

lemma notify_userlist_total:
  assumes "map (heap st) (registered (clients st)) = map Some rs"
  shows "notify_userlist st =
         (if length (userlist_line rs) < BUF_SIZE
          then Some (st\<lparr>trace := trace st @ map (\<lambda>c. Send (sock c) (userlist_line rs)) rs\<rparr>)
          else None)"
proof -
  have "userlist_loop (heap st) (clients st) (CHR 0x01 # ''USERS:'') =
        (if length (userlist_line rs) < BUF_SIZE then Some (userlist_line rs) else None)"
    using userlist_loop_total [OF assms, of "CHR 0x01 # ''USERS:''"]
    by (simp add: userlist_line_def BUF_SIZE_def)
  then show ?thesis
    using send_all_records [OF assms] by (simp add: notify_userlist_def)
qed

lemma broadcast_records:
  assumes "map (heap st) (registered (clients st)) = map Some rs"
  shows "broadcast sender msg st =
         Some (st\<lparr>trace := trace st @
                 map (\<lambda>c. Send (sock c) (broadcast_line sender msg)) rs @
                 [Log (broadcast_line sender msg)]\<rparr>)"
  using send_all_records [OF assms] by (simp add: broadcast_def log_msg_def Let_def)

subsection \<open>The table under \<open>add_client\<close> and \<open>remove_client\<close>\<close>

lemma registered_remove_loop:
  "registered (remove_loop cs cl) = remove1 cl (registered cs)"
  by (induction cs rule: registered.induct) auto

lemma add_loop_full:
  "None \<notin> set cs \<Longrightarrow> add_loop cs cl = cs"
  by (induction cs cl rule: add_loop.induct) auto

lemma set_registered_add_loop:
  "None \<in> set cs \<Longrightarrow> set (registered (add_loop cs cl)) = insert cl (set (registered cs))"
  by (induction cs cl rule: add_loop.induct) auto

lemma set_registered_add_loop_subset:
  "set (registered (add_loop cs cl)) \<subseteq> insert cl (set (registered cs))"
  by (induction cs cl rule: add_loop.induct) auto

lemma distinct_registered_add_loop:
  "distinct (registered cs) \<Longrightarrow> cl \<notin> set (registered cs) \<Longrightarrow>
   distinct (registered (add_loop cs cl))"
proof (induction cs cl rule: add_loop.induct)
  case (3 p cs cl)
  then show ?case
    using set_registered_add_loop_subset [of cs cl] by auto
qed auto

lemma length_add_loop: "length (add_loop cs cl) = length cs"
  by (induction cs cl rule: add_loop.induct) auto

lemma length_remove_loop: "length (remove_loop cs cl) = length cs"
  by (induction cs) auto

subsection \<open>The scan of the recipient name\<close>

declare parse_target.simps [simp del]

lemma parse_target_closed:
  "length target \<le> NAME_LEN - 1 \<Longrightarrow>
   parse_target buf i target =
   (target @ takeWhile (\<lambda>c. c \<noteq> CHR '' '') (take (NAME_LEN - 1 - length target) (drop i buf)),
    i + length (takeWhile (\<lambda>c. c \<noteq> CHR '' '')
                  (take (NAME_LEN - 1 - length target) (drop i buf))))"
proof (induction buf i target rule: parse_target.induct)
  case (1 buf i target)
  let ?run = "\<lambda>n j. takeWhile (\<lambda>c. c \<noteq> CHR '' '') (take n (drop j buf))"
  show ?case
  proof (cases "i < length buf \<and> buf ! i \<noteq> CHR '' '' \<and> length target < NAME_LEN - 1")
    case True
    then obtain k where k: "NAME_LEN - 1 - length target = Suc k"
      by (metis Suc_diff_Suc)
    then have k': "NAME_LEN - 1 - length (target @ [buf ! i]) = k"
      by simp
    from True have d: "drop i buf = buf ! i # drop (i + 1) buf"
      by (simp add: Cons_nth_drop_Suc)
    have le: "length (target @ [buf ! i]) \<le> NAME_LEN - 1"
      using True by simp
    have "parse_target buf i target = parse_target buf (i + 1) (target @ [buf ! i])"
      using True by (subst parse_target.simps) simp
    also have "\<dots> = ((target @ [buf ! i]) @ ?run k (i + 1), (i + 1) + length (?run k (i + 1)))"
      using "1.IH" [OF True le] k' by simp
    also have "\<dots> = (target @ ?run (Suc k) i, i + length (?run (Suc k) i))"
      using True d by simp
    finally show ?thesis
      using k by simp
  next
    case False
    then consider "length buf \<le> i" | "i < length buf" "buf ! i = CHR '' ''"
      | "length target = NAME_LEN - 1"
      using "1.prems" by fastforce
    then show ?thesis
    proof cases
      case 1
      then show ?thesis by (subst parse_target.simps) simp
    next
      case 2
      then have "drop i buf = CHR '' '' # drop (i + 1) buf"
        by (simp add: Cons_nth_drop_Suc [symmetric])
      then have "?run n i = []" for n
        by (cases n) simp_all
      then show ?thesis
        using 2 by (subst parse_target.simps) simp
    next
      case 3
      then show ?thesis by (subst parse_target.simps) simp
    qed
  qed
qed

lemma parse_private_closed:
  "parse_private buf =
   (takeWhile (\<lambda>c. c \<noteq> CHR '' '') (take (NAME_LEN - 1) (drop 1 buf)),
    drop (1 + length (takeWhile (\<lambda>c. c \<noteq> CHR '' '') (take (NAME_LEN - 1) (drop 1 buf)))) buf)"
  using parse_target_closed [of "[]" buf 1] by (simp add: parse_private_def)


subsection \<open>Free slots\<close>

lemma registered_free: "registered (replicate n None) = []"
  by (induction n) auto

lemma send_all_free: "send_all (replicate n None) msg st = Some st"
  by (induction n) auto

lemma userlist_loop_free: "userlist_loop h (replicate n None) list = Some list"
  by (induction n) auto

lemma find_loop_free: "find_loop h (replicate n None) nm = Some None"
  by (induction n) auto

lemma add_loop_free:
  "add_loop (replicate n None) cl = (if n = 0 then [] else Some cl # replicate (n - 1) None)"
  by (cases n) auto

lemma remove_loop_free: "remove_loop (replicate n None) cl = replicate n None"
  by (induction n) auto

lemmas free_slots =
  registered_free send_all_free userlist_loop_free find_loop_free add_loop_free remove_loop_free

subsection \<open>Records of the registered clients\<close>

lemma records_allocated:
  "map h ps = map Some rs \<Longrightarrow> q \<in> set ps \<Longrightarrow> h q \<noteq> None"
  by (induction ps arbitrary: rs) auto

lemma records_exist:
  "list_all (\<lambda>p. h p \<noteq> None) ps \<Longrightarrow> \<exists>rs. map h ps = map Some rs"
proof (induction ps)
  case Nil
  then show ?case by simp
next
  case (Cons p ps)
  then obtain c rs where "h p = Some c" "map h ps = map Some rs"
    by auto
  then have "map h (p # ps) = map Some (c # rs)"
    by simp
  then show ?case by blast
qed

lemma records_update_other:
  "p \<notin> set ps \<Longrightarrow> map (h(p := x)) ps = map h ps"
  by (induction ps) auto

lemma find_loop_cases:
  "map h (registered cs) = map Some rs \<Longrightarrow>
   (case find (\<lambda>r. name r = c_str nm) rs of
      None \<Rightarrow> find_loop h cs nm = Some None
    | Some r \<Rightarrow> \<exists>p. find_loop h cs nm = Some (Some p) \<and> h p = Some r)"
proof (induction h cs nm arbitrary: rs rule: find_loop.induct)
  case (1 h nm)
  then show ?case by simp
next
  case (2 h cs nm)
  from "2.IH" [of rs] "2.prems" show ?case by (simp split: option.splits)
next
  case (3 h p cs nm)
  from "3.prems" obtain c rs' where rs: "rs = c # rs'" and c: "h p = Some c"
    and rest: "map h (registered cs) = map Some rs'"
    by (cases rs) auto
  show ?case
  proof (cases "name c = c_str nm")
    case True
    then show ?thesis using c rs by simp
  next
    case False
    then show ?thesis using c rs "3.IH" [OF c False rest] by (simp split: option.splits)
  qed
qed

subsection \<open>What the operations leave alone\<close>

lemma send_all_frame:
  "send_all cs msg st = Some st' \<Longrightarrow>
   clients st' = clients st \<and> heap st' = heap st \<and> threads st' = threads st"
  by (induction cs msg st rule: send_all.induct)
     (auto simp: send_to_sock_def split: option.splits)

lemma notify_userlist_frame:
  "notify_userlist st = Some st' \<Longrightarrow>
   clients st' = clients st \<and> heap st' = heap st \<and> threads st' = threads st"
  by (auto simp: notify_userlist_def dest: send_all_frame split: Option.bind_splits)

lemma broadcast_frame:
  "broadcast sender msg st = Some st' \<Longrightarrow>
   clients st' = clients st \<and> heap st' = heap st \<and> threads st' = threads st"
  by (auto simp: broadcast_def log_msg_def Let_def dest: send_all_frame
      split: Option.bind_splits)

lemma handle_message_frame:
  "handle_message cli buf st = Some st' \<Longrightarrow>
   clients st' = clients st \<and> heap st' = heap st \<and> threads st' = threads st"
  by (auto simp: handle_message_def log_msg_def send_to_sock_def Let_def
      dest: broadcast_frame split: option.splits Option.bind_splits if_splits prod.splits)

subsection \<open>The invariant of the table\<close>

lemma table_ok_init: "table_ok init_server"
  by (simp add: table_ok_def init_server_def registered_free)

lemma table_ok_remove:
  assumes "table_ok st"
  shows "table_ok (st\<lparr>clients := remove_loop (clients st) cl, heap := (heap st)(cl := None)\<rparr>)"
proof -
  from assms have d: "distinct (registered (clients st))"
    and a: "\<forall>p \<in> set (registered (clients st)). heap st p \<noteq> None"
    by (simp_all add: table_ok_def list_all_iff)
  have "cl \<notin> set (remove1 cl (registered (clients st)))"
    using d by simp
  moreover have "set (remove1 cl (registered (clients st))) \<subseteq> set (registered (clients st))"
    by (rule set_remove1_subset)
  ultimately show ?thesis
    using d a by (auto simp: table_ok_def list_all_iff registered_remove_loop)
qed

lemma table_ok_add:
  assumes "table_ok st" and "heap st p = None"
  shows "table_ok (st\<lparr>heap := (heap st)(p \<mapsto> c), clients := add_loop (clients st) p\<rparr>)"
proof -
  from assms have d: "distinct (registered (clients st))"
    and a: "\<forall>q \<in> set (registered (clients st)). heap st q \<noteq> None"
    by (simp_all add: table_ok_def list_all_iff)
  from a assms(2) have "p \<notin> set (registered (clients st))"
    by auto
  with d have "distinct (registered (add_loop (clients st) p))"
    by (rule distinct_registered_add_loop)
  then show ?thesis
    using a set_registered_add_loop_subset [of "clients st" p]
    by (auto simp: table_ok_def list_all_iff)
qed

lemma table_ok_cong:
  "table_ok st \<Longrightarrow> clients st' = clients st \<Longrightarrow> heap st' = heap st \<Longrightarrow> table_ok st'"
  by (simp add: table_ok_def)

lemma table_ok_step:
  assumes "table_ok st" and "step i st = Some st'"
  shows "table_ok st'"
proof (cases i)
  case (Conn conn p)
  show ?thesis
  proof (cases "conn < 0")
    case True
    then show ?thesis using assms Conn by (simp add: main_accept_def)
  next
    case False
    let ?c = "\<lparr>sock = conn, name = []\<rparr>"
    let ?st1 = "st\<lparr>heap := (heap st)(p \<mapsto> ?c), clients := add_loop (clients st) p\<rparr>"
    from assms(2) Conn False have free: "heap st p = None"
      by (auto simp: main_accept_def split: if_splits)
    from assms(2) Conn False free obtain st2 where
      n: "notify_userlist ?st1 = Some st2"
      and st': "st' = st2\<lparr>threads := (threads st2)(p \<mapsto> AwaitingName)\<rparr>"
      by (auto simp: main_accept_def add_client_def split: Option.bind_splits)
    have "table_ok ?st1"
      using assms(1) free by (rule table_ok_add)
    then have "table_ok st2"
      using notify_userlist_frame [OF n] by (auto intro: table_ok_cong)
    then show ?thesis
      using st' by (simp add: table_ok_def)
  qed
next
  case (Rx cli r)
  have leave: "table_ok st'"
    if "remove_client cli st0 = Some st1" "st' = thread_exit cli (c_free cli st1)"
      "clients st0 = clients st" "heap st0 = heap st" for st0 st1
  proof -
    let ?st2 = "st\<lparr>clients := remove_loop (clients st) cli, heap := (heap st)(cli := None)\<rparr>"
    from that(1) have "clients st1 = remove_loop (clients st) cli" "heap st1 = heap st"
      using that(3,4) by (auto simp: remove_client_def dest: notify_userlist_frame)
    then have "clients st' = clients ?st2" "heap st' = heap ?st2"
      using that(2) by (simp_all add: thread_exit_def c_free_def)
    with table_ok_remove [OF assms(1), of cli] show ?thesis
      by (auto intro: table_ok_cong)
  qed
  show ?thesis
  proof (cases "threads st cli")
    case None
    then show ?thesis using assms Rx by simp
  next
    case (Some q)
    show ?thesis
    proof (cases q)
      case AwaitingName
      with Some Rx assms(2) have h: "handle_client_name cli r st = Some st'"
        by simp
      then obtain c where c: "heap st cli = Some c"
        by (auto simp: handle_client_name_def split: option.splits)
      show ?thesis
      proof (cases "c_recv (NAME_LEN - 1) r")
        case None
        with h c obtain st1 where
          "remove_client cli (c_close (sock c) st) = Some st1"
          "st' = thread_exit cli (c_free cli st1)"
          by (auto simp: handle_client_name_def split: Option.bind_splits)
        then show ?thesis
          by (rule leave) (simp_all add: c_close_def)
      next
        case (Some buf)
        let ?st1 = "st\<lparr>heap := (heap st)(cli \<mapsto> c\<lparr>name := c_strncpy buf (NAME_LEN - 1)\<rparr>)\<rparr>"
        from h c Some obtain st2 where
          b: "broadcast ''server''
                (c_snprintf 128 (''*** '' @ c_strncpy buf (NAME_LEN - 1) @ '' joined'')) ?st1 =
              Some st2"
          and st': "st' = st2\<lparr>threads := (threads st2)(cli \<mapsto> InLoop)\<rparr>"
          by (auto simp: handle_client_name_def Let_def split: Option.bind_splits if_splits)
        have "table_ok ?st1"
          using assms(1) by (auto simp: table_ok_def list_all_iff)
        then have "table_ok st2"
          using broadcast_frame [OF b] by (auto intro: table_ok_cong)
        then show ?thesis
          using st' by (simp add: table_ok_def)
      qed
    next
      case InLoop
      with Some Rx assms(2) have h: "handle_client_loop cli r st = Some st'"
        by simp
      show ?thesis
      proof (cases "c_recv (BUF_SIZE - 1) r")
        case None
        with h have d: "handle_client_disconnect cli st = Some st'"
          by (simp add: handle_client_loop_def)
        then obtain c where c: "heap st cli = Some c"
          by (auto simp: handle_client_disconnect_def split: option.splits)
        with d obtain st2 st3 where
          b: "broadcast ''server'' (c_snprintf 128 (''*** '' @ name c @ '' left''))
                (c_close (sock c) st) = Some st2"
          and r: "remove_client cli st2 = Some st3"
          and st': "st' = thread_exit cli (c_free cli st3)"
          by (auto simp: handle_client_disconnect_def Let_def split: Option.bind_splits)
        show ?thesis
          using broadcast_frame [OF b] by (intro leave [OF r st']) (simp_all add: c_close_def)
      next
        case (Some buf)
        with h have "handle_message cli buf st = Some st'"
          by (simp add: handle_client_loop_def)
        from handle_message_frame [OF this] assms(1) show ?thesis
          by (auto intro: table_ok_cong)
      qed
    qed
  qed
qed

lemma table_ok_run:
  "table_ok st \<Longrightarrow> run is st = Some st' \<Longrightarrow> table_ok st'"
  by (induction "is" arbitrary: st) (auto dest: table_ok_step split: option.splits)

lemma table_ok_records:
  "table_ok st \<Longrightarrow> \<exists>rs. map (heap st) (registered (clients st)) = map Some rs"
  by (auto simp: table_ok_def intro: records_exist)

lemma reachable_table_ok: "run is init_server = Some st \<Longrightarrow> table_ok st"
  using table_ok_init by (rule table_ok_run)

lemmas server_defs =
  init_server_def MAX_CLIENTS_def BUF_SIZE_def NAME_LEN_def main_accept_def add_client_def
  remove_client_def notify_userlist_def broadcast_def broadcast_line_def private_line_def
  handle_client_name_def handle_client_loop_def handle_client_disconnect_def
  handle_message_def parse_private_closed find_by_name_def log_msg_def send_to_sock_def
  c_close_def c_free_def thread_exit_def c_snprintf_def c_strncpy_def c_str_def Let_def


subsection \<open>One message\<close>

lemma handle_message_private:
  assumes c: "heap st cli = Some c" and at: "hd buf = CHR ''@''"
    and rs: "map (heap st) (registered (clients st)) = map Some rs"
    and p: "parse_private buf = (target, message)"
  shows "handle_message cli buf st =
         Some (st\<lparr>trace := trace st @
                 Log (private_line (name c) target message) #
                 (case find (\<lambda>r. name r = c_str target) rs of
                    None \<Rightarrow> []
                  | Some r \<Rightarrow> [Send (sock r) (private_line (name c) target message)]) @
                 [Send (sock c) (private_line (name c) target message)]\<rparr>)"
proof (cases "find (\<lambda>r. name r = c_str target) rs")
  case None
  with find_loop_cases [OF rs, of target] have "find_by_name target st = Some None"
    by (simp add: find_by_name_def)
  with c at p None show ?thesis
    by (simp add: handle_message_def log_msg_def send_to_sock_def Let_def)
next
  case (Some r)
  with find_loop_cases [OF rs, of target] obtain q where
    "find_by_name target st = Some (Some q)" "heap st q = Some r"
    by (auto simp: find_by_name_def)
  with c at p Some show ?thesis
    by (simp add: handle_message_def log_msg_def send_to_sock_def Let_def)
qed

lemma handle_message_public:
  assumes c: "heap st cli = Some c" and at: "hd buf \<noteq> CHR ''@''"
    and rs: "map (heap st) (registered (clients st)) = map Some rs"
  shows "handle_message cli buf st =
         Some (st\<lparr>trace := trace st @
                 map (\<lambda>r. Send (sock r) (broadcast_line (name c) buf)) rs @
                 [Log (broadcast_line (name c) buf)]\<rparr>)"
  using c at broadcast_records [OF rs] by (simp add: handle_message_def)

lemma two_clients_records:
  "map (heap two_clients) (registered (clients two_clients)) =
   map Some [\<lparr>sock = 5, name = ''alice''\<rparr>, \<lparr>sock = 6, name = ''bob''\<rparr>]"
  by (simp add: two_clients_def registered_free)

lemma parse_private_space:
  assumes a: "CHR '' '' \<notin> set t \<and> length t < NAME_LEN"
  shows "parse_private (x # t @ CHR '' '' # rest) = (t, CHR '' '' # rest)"
proof -
  have "takeWhile (\<lambda>c. c \<noteq> CHR '' '') (take n (CHR '' '' # rest)) = []" for n
    by (cases n) simp_all
  moreover have "take (NAME_LEN - 1) t = t"
    using a by (simp add: NAME_LEN_def)
  moreover have "takeWhile (\<lambda>c. c \<noteq> CHR '' '') (t @ ys) =
      t @ takeWhile (\<lambda>c. c \<noteq> CHR '' '') ys" for ys
    using a by (intro takeWhile_append2) auto
  ultimately
  have "takeWhile (\<lambda>c. c \<noteq> CHR '' '') (take (NAME_LEN - 1) (t @ CHR '' '' # rest)) = t"
    by simp
  then show ?thesis
    by (simp add: parse_private_closed)
qed

lemma parse_private_short:
  assumes a: "CHR '' '' \<notin> set (drop 1 buf) \<and> length buf \<le> NAME_LEN"
  shows "parse_private buf = (drop 1 buf, [])"
proof -
  from a have "length (drop 1 buf) \<le> NAME_LEN - 1"
    by (auto simp: NAME_LEN_def)
  then have "take (NAME_LEN - 1) (drop 1 buf) = drop 1 buf"
    by (rule take_all)
  moreover have "takeWhile (\<lambda>c. c \<noteq> CHR '' '') (drop 1 buf) = drop 1 buf"
    using a by (auto simp: takeWhile_eq_all_conv)
  ultimately
  have "takeWhile (\<lambda>c. c \<noteq> CHR '' '') (take (NAME_LEN - 1) (drop 1 buf)) = drop 1 buf"
    by simp
  then show ?thesis
    by (simp add: parse_private_closed)
qed

lemma parse_private_long:
  assumes a: "CHR '' '' \<notin> set (take (NAME_LEN - 1) (drop 1 buf)) \<and> NAME_LEN < length buf"
  shows "parse_private buf = (take (NAME_LEN - 1) (drop 1 buf), drop NAME_LEN buf)"
proof -
  define r where "r = take (NAME_LEN - 1) (drop 1 buf)"
  have tw: "takeWhile (\<lambda>c. c \<noteq> CHR '' '') r = r"
    using a by (auto simp: takeWhile_eq_all_conv r_def)
  have len: "1 + length r = NAME_LEN"
    using a by (auto simp: r_def NAME_LEN_def)
  have "parse_private buf =
      (takeWhile (\<lambda>c. c \<noteq> CHR '' '') r,
       drop (1 + length (takeWhile (\<lambda>c. c \<noteq> CHR '' '') r)) buf)"
    unfolding r_def by (rule parse_private_closed)
  then have "parse_private buf = (r, drop NAME_LEN buf)"
    by (simp only: tw len)
  then show ?thesis
    by (simp only: r_def)
qed

lemma find_loop_first:
  "registered cs = ps @ cli # qs \<Longrightarrow> map h ps = map Some rs1 \<Longrightarrow>
   \<forall>r \<in> set rs1. name r \<noteq> c_str nm \<Longrightarrow> h cli = Some c \<Longrightarrow> name c = c_str nm \<Longrightarrow>
   find_loop h cs nm = Some (Some cli)"
proof (induction h cs nm arbitrary: ps rs1 rule: find_loop.induct)
  case (1 h nm)
  then show ?case by simp
next
  case (2 h cs nm)
  then show ?case by simp
next
  case (3 h p cs nm)
  show ?case
  proof (cases ps)
    case Nil
    with "3.prems" show ?thesis by simp
  next
    case (Cons p' ps')
    with "3.prems"(1) have p: "p' = p" and reg: "registered cs = ps' @ cli # qs"
      by simp_all
    from "3.prems"(2) Cons p obtain r rs' where rs1: "rs1 = r # rs'" and r: "h p = Some r"
      and rest: "map h ps' = map Some rs'"
      by (cases rs1) auto
    from "3.prems"(3) rs1 have ne: "name r \<noteq> c_str nm" and ne': "\<forall>r \<in> set rs'. name r \<noteq> c_str nm"
      by simp_all
    from "3.IH" [OF r ne reg rest ne' "3.prems"(4,5)] r ne show ?thesis
      by simp
  qed
qed

lemma c_str_no_nul: "CHR 0x00 \<notin> set s \<Longrightarrow> c_str s = s"
  by (auto simp: c_str_def takeWhile_eq_all_conv)

subsection \<open>The operations in closed form\<close>

lemma add_client_closed:
  assumes "map (heap st) (registered (add_loop (clients st) cl)) = map Some rs"
    and "length (userlist_line rs) < BUF_SIZE"
  shows "add_client cl st =
         Some (st\<lparr>clients := add_loop (clients st) cl,
                 trace := trace st @ map (\<lambda>r. Send (sock r) (userlist_line rs)) rs\<rparr>)"
  using notify_userlist_records [of "st\<lparr>clients := add_loop (clients st) cl\<rparr>" rs] assms
  by (simp add: add_client_def)

lemma main_accept_closed:
  assumes "0 \<le> conn" and "heap st p = None"
    and "map ((heap st)(p \<mapsto> \<lparr>sock = conn, name = []\<rparr>)) (registered (add_loop (clients st) p)) =
         map Some rs"
    and "length (userlist_line rs) < BUF_SIZE"
  shows "main_accept conn p st =
         Some (st\<lparr>clients := add_loop (clients st) p,
                 heap := (heap st)(p \<mapsto> \<lparr>sock = conn, name = []\<rparr>),
                 threads := (threads st)(p \<mapsto> AwaitingName),
                 trace := trace st @ map (\<lambda>r. Send (sock r) (userlist_line rs)) rs\<rparr>)"
  using add_client_closed [of "st\<lparr>heap := (heap st)(p \<mapsto> \<lparr>sock = conn, name = []\<rparr>)\<rparr>" p rs] assms
  by (simp add: main_accept_def)

lemma main_accept_full:
  assumes "None \<notin> set (clients st)" and "0 \<le> conn" and "heap st p = None"
    and "map (heap st) (registered (clients st)) = map Some rs"
    and "length (userlist_line rs) < BUF_SIZE"
  shows "main_accept conn p st =
         Some (st\<lparr>heap := (heap st)(p \<mapsto> \<lparr>sock = conn, name = []\<rparr>),
                 threads := (threads st)(p \<mapsto> AwaitingName),
                 trace := trace st @ map (\<lambda>r. Send (sock r) (userlist_line rs)) rs\<rparr>)"
proof -
  have "p \<notin> set (registered (clients st))"
    using records_allocated [OF assms(4)] assms(3) by blast
  then have "map ((heap st)(p \<mapsto> \<lparr>sock = conn, name = []\<rparr>)) (registered (clients st)) = map Some rs"
    using assms(4) by (simp add: records_update_other)
  then show ?thesis
    using main_accept_closed [of conn st p rs] assms
    by (simp add: add_loop_full)
qed

lemma registered_Some: "registered (map Some ps) = ps"
  by (induction ps) auto

lemma remove_client_total:
  assumes "map (heap st) (remove1 cl (registered (clients st))) = map Some rs"
  shows "remove_client cl st =
         (if length (userlist_line rs) < BUF_SIZE
          then Some (st\<lparr>clients := remove_loop (clients st) cl,
                       trace := trace st @ map (\<lambda>r. Send (sock r) (userlist_line rs)) rs\<rparr>)
          else None)"
  using notify_userlist_total [of "st\<lparr>clients := remove_loop (clients st) cl\<rparr>" rs] assms
  by (simp add: remove_client_def registered_remove_loop)

lemma main_accept_full_total:
  assumes "None \<notin> set (clients st)" and "0 \<le> conn" and "heap st p = None"
    and "map (heap st) (registered (clients st)) = map Some rs"
  shows "main_accept conn p st =
         (if length (userlist_line rs) < BUF_SIZE
          then Some (st\<lparr>heap := (heap st)(p \<mapsto> \<lparr>sock = conn, name = []\<rparr>),
                       threads := (threads st)(p \<mapsto> AwaitingName),
                       trace := trace st @ map (\<lambda>r. Send (sock r) (userlist_line rs)) rs\<rparr>)
          else None)"
proof -
  let ?st1 = "st\<lparr>heap := (heap st)(p \<mapsto> \<lparr>sock = conn, name = []\<rparr>),
               clients := add_loop (clients st) p\<rparr>"
  have "p \<notin> set (registered (clients st))"
    using records_allocated [OF assms(4)] assms(3) by blast
  then have "map (heap ?st1) (registered (clients ?st1)) = map Some rs"
    using assms(1,4) by (simp add: records_update_other add_loop_full)
  from notify_userlist_total [OF this] assms(1,2,3) show ?thesis
    by (simp add: main_accept_def add_client_def add_loop_full)
qed

lemma name_fail_total:
  assumes "heap st cli = Some c" and "c_recv (NAME_LEN - 1) r = None"
    and "map (heap st) (remove1 cli (registered (clients st))) = map Some rs"
  shows "handle_client_name cli r st =
         (if length (userlist_line rs) < BUF_SIZE
          then Some (st\<lparr>clients := remove_loop (clients st) cli,
                       heap := (heap st)(cli := None),
                       threads := (threads st)(cli := None),
                       trace := trace st @ Close (sock c) #
                         map (\<lambda>r. Send (sock r) (userlist_line rs)) rs\<rparr>)
          else None)"
  using remove_client_total [of "c_close (sock c) st" cli rs] assms
  by (simp add: handle_client_name_def c_close_def c_free_def thread_exit_def)

lemma disconnect_total:
  assumes "heap st cli = Some c"
    and "map (heap st) (registered (clients st)) = map Some rs"
    and "map (heap st) (remove1 cli (registered (clients st))) = map Some rs'"
  shows "handle_client_disconnect cli st =
         (if length (userlist_line rs') < BUF_SIZE
          then Some (st\<lparr>clients := remove_loop (clients st) cli,
                 heap := (heap st)(cli := None),
                 threads := (threads st)(cli := None),
                 trace := trace st @ Close (sock c) #
                   map (\<lambda>r. Send (sock r)
                     (broadcast_line ''server'' (c_snprintf 128 (''*** '' @ name c @ '' left'')))) rs @
                   Log (broadcast_line ''server'' (c_snprintf 128 (''*** '' @ name c @ '' left''))) #
                   map (\<lambda>r. Send (sock r) (userlist_line rs')) rs'\<rparr>)
          else None)"
proof -
  let ?leave = "c_snprintf 128 (''*** '' @ name c @ '' left'')"
  let ?st1 = "c_close (sock c) st"
  let ?st2 = "?st1\<lparr>trace := trace ?st1 @
      map (\<lambda>r. Send (sock r) (broadcast_line ''server'' ?leave)) rs @
      [Log (broadcast_line ''server'' ?leave)]\<rparr>"
  have b: "broadcast ''server'' ?leave ?st1 = Some ?st2"
    using assms(2) by (intro broadcast_records) (simp add: c_close_def)
  have "map (heap ?st2) (remove1 cli (registered (clients ?st2))) = map Some rs'"
    using assms(3) by (simp add: c_close_def)
  from remove_client_total [OF this] assms(1) b show ?thesis
    by (simp add: handle_client_disconnect_def Let_def c_close_def c_free_def thread_exit_def)
qed

lemma main_accept_registers:
  assumes "main_accept conn p st = Some st'" and "0 \<le> conn" and "None \<in> set (clients st)"
  shows "p \<in> set (registered (clients st'))"
proof -
  from assms(1,2) obtain st1 where
    n: "notify_userlist (st\<lparr>heap := (heap st)(p \<mapsto> \<lparr>sock = conn, name = []\<rparr>),
                             clients := add_loop (clients st) p\<rparr>) = Some st1"
    and st': "st' = st1\<lparr>threads := (threads st1)(p \<mapsto> AwaitingName)\<rparr>"
    by (auto simp: main_accept_def add_client_def split: if_splits Option.bind_splits)
  from notify_userlist_frame [OF n] st' have "clients st' = add_loop (clients st) p"
    by simp
  with assms(3) show ?thesis
    by (simp add: set_registered_add_loop)
qed

lemma userlist_line_named:
  "length (userlist_line (map (\<lambda>p. \<lparr>sock = f p, name = nm\<rparr>) ps)) =
   7 + length ps * (length nm + 1)"
  by (induction ps) (auto simp: userlist_line_def)

lemma full_named_records:
  "map (heap (full_named nm)) (registered (clients (full_named nm))) =
   map Some (map (\<lambda>p. \<lparr>sock = int p + 4, name = nm\<rparr>) [0..<MAX_CLIENTS])"
  by (simp add: full_named_def registered_Some)

lemma full_server_records:
  "map (heap full_server) (registered (clients full_server)) =
   map Some (map (\<lambda>p. \<lparr>sock = int p + 4, name = []\<rparr>) [0..<MAX_CLIENTS])"
  by (simp add: full_server_def registered_Some)

lemma userlist_line_unnamed:
  "userlist_line (map (\<lambda>p. \<lparr>sock = f p, name = []\<rparr>) ps) =
   CHR 0x01 # ''USERS:'' @ replicate (length ps) (CHR '','')"
  by (induction ps) (auto simp: userlist_line_def replicate_append_same)

lemma notify_userlist_Some:
  assumes "notify_userlist st = Some st'"
  shows "\<exists>rs. map (heap st) (registered (clients st)) = map Some rs \<and>
           st' = st\<lparr>trace := trace st @ map (\<lambda>r. Send (sock r) (userlist_line rs)) rs\<rparr>"
proof -
  from assms obtain line where
    l: "userlist_loop (heap st) (clients st) (CHR 0x01 # ''USERS:'') = Some line"
    and s: "send_all (clients st) line st = Some st'"
    by (auto simp: notify_userlist_def split: Option.bind_splits)
  from userlist_loop_Some [OF l] obtain rs where
    rs: "map (heap st) (registered (clients st)) = map Some rs"
    and line: "line = userlist_line rs"
    by (auto simp: userlist_line_def)
  from send_all_records [OF rs, of line] s line rs show ?thesis
    by auto
qed

lemma userlist_line_no_announcement:
  "filter is_announcement (map (\<lambda>r. Send (sock r) (userlist_line rs)) rs') = []"
  by (induction rs') (auto simp: userlist_line_def)

lemma main_accept_no_announcement:
  assumes "main_accept conn p st = Some st'"
  shows "filter is_announcement (drop (length (trace st)) (trace st')) = []"
proof (cases "conn < 0")
  case True
  with assms show ?thesis by (simp add: main_accept_def)
next
  case False
  with assms obtain st1 where
    n: "notify_userlist (st\<lparr>heap := (heap st)(p \<mapsto> \<lparr>sock = conn, name = []\<rparr>),
                             clients := add_loop (clients st) p\<rparr>) = Some st1"
    and st': "st' = st1\<lparr>threads := (threads st1)(p \<mapsto> AwaitingName)\<rparr>"
    by (auto simp: main_accept_def add_client_def split: if_splits Option.bind_splits)
  from notify_userlist_Some [OF n] obtain rs where
    "trace st1 = trace st @ map (\<lambda>r. Send (sock r) (userlist_line rs)) rs"
    by auto
  with st' show ?thesis
    by (simp add: userlist_line_no_announcement)
qed

subsection \<open>The tokens of a user list\<close>

lemma strtok_all_comma: "strtok_all (CHR '','' # s) = strtok_all s"
  by (subst (1 2) strtok_all.simps) simp

lemma strtok_all_token:
  assumes "x \<noteq> CHR '',''" and "CHR '','' \<notin> set n"
  shows "strtok_all (x # n @ CHR '','' # rest) = (x # n) # strtok_all rest"
proof -
  have "takeWhile (\<lambda>c. c \<noteq> CHR '','') (n @ CHR '','' # rest) = n"
    using assms(2) by (auto simp: takeWhile_tail)
  moreover have "dropWhile (\<lambda>c. c \<noteq> CHR '','') (n @ CHR '','' # rest) = CHR '','' # rest"
    using assms(2) by (auto simp: dropWhile_append3)
  ultimately show ?thesis
    using assms(1) by (subst strtok_all.simps) (simp add: strtok_all_comma)
qed

lemma strtok_all_names:
  "\<forall>n \<in> set ns. CHR '','' \<notin> set n \<Longrightarrow>
   strtok_all (concat (map (\<lambda>n. n @ '','') ns)) = filter (\<lambda>n. n \<noteq> []) ns"
proof (induction ns)
  case Nil
  show ?case by (subst strtok_all.simps) simp
next
  case (Cons n ns)
  show ?case
  proof (cases n)
    case Nil
    with Cons show ?thesis by (simp add: strtok_all_comma)
  next
    case (Cons x n')
    with Cons.prems have "x \<noteq> CHR '',''" "CHR '','' \<notin> set n'"
      by auto
    from strtok_all_token [OF this] Cons Cons.IH Cons.prems show ?thesis
      by simp
  qed
qed

lemma recv_thread_userlist:
  assumes "length (userlist_line rs) < BUF_SIZE"
    and "\<forall>r \<in> set rs. CHR '','' \<notin> set (name r) \<and> CHR 0x00 \<notin> set (name r)"
  shows "users (recv_thread (userlist_line rs) ui) = filter (\<lambda>n. n \<noteq> []) (map name rs)"
proof -
  let ?body = "concat (map (\<lambda>n. n @ '','') (map name rs))"
  have line: "userlist_line rs = CHR 0x01 # ''USERS:'' @ ?body"
    by (simp add: userlist_line_def comp_def)
  have "CHR 0x00 \<notin> set ?body"
    using assms(2) by auto
  then have "c_str ?body = ?body"
    by (rule c_str_no_nul)
  moreover have "length ?body \<le> BUF_SIZE - 1"
    using assms(1) line by simp
  ultimately have copy: "c_strncpy ?body (BUF_SIZE - 1) = ?body"
    by (simp add: c_strncpy_def)
  have "strtok_all ?body = filter (\<lambda>n. n \<noteq> []) (map name rs)"
    using assms(2) by (intro strtok_all_names) auto
  with copy have "users (update_userlist ?body ui) = filter (\<lambda>n. n \<noteq> []) (map name rs)"
    by (simp add: update_userlist_def)
  moreover have "recv_thread (userlist_line rs) ui = update_userlist ?body ui"
    unfolding line by (simp add: recv_thread_def c_str_def)
  ultimately show ?thesis
    by simp
qed

subsection \<open>A session thread alone is \<open>handle_client\<close>\<close>

lemma run_no_thread:
  "threads st cli = None \<Longrightarrow> run (map (Rx cli) rs) st = Some st"
  by (induction rs) auto

lemma disconnect_ends_thread:
  "handle_client_disconnect cli st = Some st' \<Longrightarrow> threads st' cli = None"
  by (auto simp: handle_client_disconnect_def thread_exit_def c_free_def Let_def
      split: option.splits Option.bind_splits)

lemma handle_client_while_run:
  "threads st cli = Some InLoop \<Longrightarrow> handle_client_while cli rs st = run (map (Rx cli) rs) st"
proof (induction rs arbitrary: st)
  case Nil
  then show ?case by simp
next
  case (Cons r rs)
  show ?case
  proof (cases "c_recv (BUF_SIZE - 1) r")
    case None
    show ?thesis
    proof (cases "handle_client_disconnect cli st")
      case None
      with \<open>c_recv (BUF_SIZE - 1) r = None\<close> Cons.prems show ?thesis
        by (simp add: handle_client_loop_def)
    next
      case (Some st')
      with disconnect_ends_thread [OF Some] \<open>c_recv (BUF_SIZE - 1) r = None\<close> Cons.prems
      show ?thesis
        by (simp add: handle_client_loop_def run_no_thread)
    qed
  next
    case (Some buf)
    show ?thesis
    proof (cases "handle_message cli buf st")
      case None
      with Some Cons.prems show ?thesis
        by (simp add: handle_client_loop_def)
    next
      case (Some st1)
      from handle_message_frame [OF Some] Cons.prems have "threads st1 cli = Some InLoop"
        by simp
      from Cons.IH [OF this] Some \<open>c_recv (BUF_SIZE - 1) r = Some buf\<close> Cons.prems
      show ?thesis
        by (simp add: handle_client_loop_def)
    qed
  qed
qed

lemma handle_client_run:
  assumes "threads st cli = Some AwaitingName"
  shows "handle_client cli rs st = run (map (Rx cli) rs) st"
proof (cases rs)
  case Nil
  then show ?thesis by simp
next
  case (Cons r rs')
  show ?thesis
  proof (cases "handle_client_name cli r st")
    case None
    with Cons assms show ?thesis
      by (simp split: option.splits)
  next
    case (Some st1)
    show ?thesis
    proof (cases "c_recv (NAME_LEN - 1) r")
      case None
      with Some have "threads st1 cli = None"
        by (auto simp: handle_client_name_def thread_exit_def
            split: option.splits Option.bind_splits)
      with None Some Cons assms show ?thesis
        by (simp add: run_no_thread)
    next
      case (Some buf)
      with \<open>handle_client_name cli r st = Some st1\<close> have "threads st1 cli = Some InLoop"
        by (auto simp: handle_client_name_def Let_def
            split: option.splits Option.bind_splits if_splits)
      from handle_client_while_run [OF this] Some \<open>handle_client_name cli r st = Some st1\<close>
        Cons assms
      show ?thesis
        by simp
    qed
  qed
qed

subsection \<open>The states of the examples are reachable\<close>

lemma run_append:
  "run (xs @ ys) st = Option.bind (run xs st) (run ys)"
  by (induction xs arbitrary: st) (auto split: option.splits)

lemma two_clients_reachable:
  "run [Conn 5 0, Rx 0 (Bytes ''alice''), Conn 6 1, Rx 1 (Bytes ''bob'')] init_server =
   Some (two_clients\<lparr>trace :=
     [Send 5 (CHR 0x01 # ''USERS:,''),
      Send 5 ''server: *** alice joined\<newline>'', Log ''server: *** alice joined\<newline>'',
      Send 5 (CHR 0x01 # ''USERS:alice,,''), Send 6 (CHR 0x01 # ''USERS:alice,,''),
      Send 5 ''server: *** bob joined\<newline>'', Send 6 ''server: *** bob joined\<newline>'',
      Log ''server: *** bob joined\<newline>'']\<rparr>)"
  by (simp add: server_defs free_slots two_clients_def fun_upd_twist)

lemma bob_and_silent_reachable:
  "run [Conn 5 0, Conn 6 1, Rx 1 (Bytes ''bob'')] init_server = Some bob_and_silent"
  by (simp add: server_defs free_slots bob_and_silent_def fun_upd_twist)

lemma add_loop_Some_prefix:
  "add_loop (map Some ps @ cs) p = map Some ps @ add_loop cs p"
  by (induction ps) auto

lemma registered_Some_prefix:
  "registered (map Some ps @ cs) = ps @ registered cs"
  by (induction ps) auto

lemma accept_many:
  "n \<le> MAX_CLIENTS \<Longrightarrow>
   \<exists>t. run (map (\<lambda>p. Conn (int p + 4) p) [0..<n]) init_server =
     Some \<lparr>clients = map Some [0..<n] @ replicate (MAX_CLIENTS - n) None,
           heap = (\<lambda>p. if p < n then Some \<lparr>sock = int p + 4, name = []\<rparr> else None),
           threads = (\<lambda>p. if p < n then Some AwaitingName else None),
           trace = t\<rparr>"
proof (induction n)
  case 0
  then show ?case by (simp add: init_server_def)
next
  case (Suc n)
  let ?new = "\<lambda>p. \<lparr>sock = int p + 4, name = []\<rparr>"
  let ?h = "\<lambda>k p. if p < k then Some (?new p) else None"
  let ?th = "\<lambda>k p. if p < k then Some AwaitingName else None"
  from Suc obtain t where
    run: "run (map (\<lambda>p. Conn (int p + 4) p) [0..<n]) init_server =
      Some \<lparr>clients = map Some [0..<n] @ replicate (MAX_CLIENTS - n) None,
            heap = ?h n, threads = ?th n, trace = t\<rparr>" (is "_ = Some ?st")
    by auto
  from Suc.prems obtain k where k: "MAX_CLIENTS - n = Suc k"
    by (metis Suc_diff_le diff_Suc_Suc)
  have tbl: "add_loop (clients ?st) n = map Some [0..<Suc n] @ replicate (MAX_CLIENTS - Suc n) None"
    using k by (simp add: add_loop_Some_prefix)
  have h: "(heap ?st)(n \<mapsto> ?new n) = ?h (Suc n)"
    by (auto simp: fun_eq_iff)
  have th: "(threads ?st)(n \<mapsto> AwaitingName) = ?th (Suc n)"
    by (auto simp: fun_eq_iff)
  have rec: "map ((heap ?st)(n \<mapsto> ?new n)) (registered (add_loop (clients ?st) n)) =
      map Some (map ?new [0..<Suc n])"
    unfolding tbl h by (simp add: registered_Some_prefix registered_free)
  have fit: "length (userlist_line (map ?new [0..<Suc n])) < BUF_SIZE"
    using Suc.prems by (simp add: userlist_line_unnamed MAX_CLIENTS_def BUF_SIZE_def del: upt_Suc)
  have "main_accept (int n + 4) n ?st =
      Some (?st\<lparr>clients := add_loop (clients ?st) n,
              heap := (heap ?st)(n \<mapsto> ?new n),
              threads := (threads ?st)(n \<mapsto> AwaitingName),
              trace := trace ?st @
                map (\<lambda>r. Send (sock r) (userlist_line (map ?new [0..<Suc n])))
                  (map ?new [0..<Suc n])\<rparr>)"
    using rec fit by (intro main_accept_closed) simp_all
  then have "\<exists>t'. main_accept (int n + 4) n ?st =
      Some \<lparr>clients = map Some [0..<Suc n] @ replicate (MAX_CLIENTS - Suc n) None,
            heap = ?h (Suc n), threads = ?th (Suc n), trace = t'\<rparr>"
    unfolding tbl h th by simp
  then obtain t' where "main_accept (int n + 4) n ?st =
      Some \<lparr>clients = map Some [0..<Suc n] @ replicate (MAX_CLIENTS - Suc n) None,
            heap = ?h (Suc n), threads = ?th (Suc n), trace = t'\<rparr>"
    by blast
  with run have "run (map (\<lambda>p. Conn (int p + 4) p) [0..<Suc n]) init_server =
      Some \<lparr>clients = map Some [0..<Suc n] @ replicate (MAX_CLIENTS - Suc n) None,
            heap = ?h (Suc n), threads = ?th (Suc n), trace = t'\<rparr>"
    by (simp add: run_append)
  then show ?case
    by blast
qed

lemma full_server_reachable:
  "\<exists>t. run (map (\<lambda>p. Conn (int p + 4) p) [0..<MAX_CLIENTS]) init_server =
        Some (full_server\<lparr>trace := t\<rparr>)"
  using accept_many [of MAX_CLIENTS] by (simp add: full_server_def)

lemma name_many:
  assumes nm: "nm \<noteq> []" "CHR 0x00 \<notin> set nm" "length nm < NAME_LEN - 1"
  shows "k \<le> MAX_CLIENTS \<Longrightarrow>
   \<exists>t. run (map (\<lambda>p. Rx p (Bytes nm)) [0..<k]) (full_server\<lparr>trace := t0\<rparr>) =
     Some \<lparr>clients = map Some [0..<MAX_CLIENTS],
           heap = (\<lambda>p. if p < k then Some \<lparr>sock = int p + 4, name = nm\<rparr>
                        else if p < MAX_CLIENTS then Some \<lparr>sock = int p + 4, name = []\<rparr>
                        else None),
           threads = (\<lambda>p. if p < k then Some InLoop
                           else if p < MAX_CLIENTS then Some AwaitingName else None),
           trace = t\<rparr>"
proof (induction k)
  case 0
  then show ?case by (simp add: full_server_def)
next
  case (Suc k)
  let ?h = "\<lambda>k p. if p < k then Some \<lparr>sock = int p + 4, name = nm\<rparr>
                 else if p < MAX_CLIENTS then Some \<lparr>sock = int p + 4, name = []\<rparr> else None"
  let ?th = "\<lambda>k p. if p < k then Some InLoop
                  else if p < MAX_CLIENTS then Some AwaitingName else None"
  from Suc obtain t where
    run: "run (map (\<lambda>p. Rx p (Bytes nm)) [0..<k]) (full_server\<lparr>trace := t0\<rparr>) =
      Some \<lparr>clients = map Some [0..<MAX_CLIENTS], heap = ?h k, threads = ?th k, trace = t\<rparr>"
      (is "_ = Some ?st")
    by auto
  have k: "k < MAX_CLIENTS"
    using Suc.prems by simp
  have str: "c_str nm = nm"
    using nm(2) by (rule c_str_no_nul)
  have copy: "c_strncpy nm (NAME_LEN - 1) = nm"
    using nm(3) by (simp add: c_strncpy_def str)
  have rd: "c_recv (NAME_LEN - 1) (Bytes nm) = Some nm"
    using nm by simp
  have c: "heap ?st k = Some \<lparr>sock = int k + 4, name = []\<rparr>"
    using k by simp
  let ?st1 = "?st\<lparr>heap := (heap ?st)(k \<mapsto> \<lparr>sock = int k + 4, name = nm\<rparr>)\<rparr>"
  have h: "heap ?st1 = ?h (Suc k)"
    using k by (auto simp: fun_eq_iff)
  have "list_all (\<lambda>p. heap ?st1 p \<noteq> None) (registered (clients ?st1))"
    unfolding h by (simp add: registered_Some list_all_iff)
  then obtain rs where rs: "map (heap ?st1) (registered (clients ?st1)) = map Some rs"
    using records_exist by blast
  from broadcast_records [OF rs] obtain t' where
    b: "broadcast ''server'' (c_snprintf 128 (''*** '' @ nm @ '' joined'')) ?st1 =
        Some (?st1\<lparr>trace := t'\<rparr>)"
    by blast
  have th: "(threads ?st)(k \<mapsto> InLoop) = ?th (Suc k)"
    by (auto simp: fun_eq_iff)
  have "handle_client_name k (Bytes nm) ?st =
      Some ((?st1\<lparr>trace := t'\<rparr>)\<lparr>threads := (threads ?st)(k \<mapsto> InLoop)\<rparr>)"
    unfolding handle_client_name_def c rd copy str Let_def option.case
    using nm(3) b by simp
  moreover have "(?st1\<lparr>trace := t'\<rparr>)\<lparr>threads := (threads ?st)(k \<mapsto> InLoop)\<rparr> =
      \<lparr>clients = map Some [0..<MAX_CLIENTS], heap = ?h (Suc k),
       threads = ?th (Suc k), trace = t'\<rparr>"
    using h th by simp
  ultimately have "step (Rx k (Bytes nm)) ?st =
      Some \<lparr>clients = map Some [0..<MAX_CLIENTS], heap = ?h (Suc k), threads = ?th (Suc k),
            trace = t'\<rparr>"
    using k by simp
  with run have "run (map (\<lambda>p. Rx p (Bytes nm)) [0..<Suc k]) (full_server\<lparr>trace := t0\<rparr>) =
      Some \<lparr>clients = map Some [0..<MAX_CLIENTS], heap = ?h (Suc k), threads = ?th (Suc k),
            trace = t'\<rparr>"
    by (simp add: run_append)
  then show ?case
    by blast
qed

lemma full_named_reachable:
  assumes "nm \<noteq> []" "CHR 0x00 \<notin> set nm" "length nm < NAME_LEN - 1"
  shows "\<exists>t. run (map (\<lambda>p. Conn (int p + 4) p) [0..<MAX_CLIENTS] @
                 map (\<lambda>p. Rx p (Bytes nm)) [0..<MAX_CLIENTS]) init_server =
             Some (full_named nm\<lparr>trace := t\<rparr>)"
proof -
  from full_server_reachable obtain t0 where
    a: "run (map (\<lambda>p. Conn (int p + 4) p) [0..<MAX_CLIENTS]) init_server =
        Some (full_server\<lparr>trace := t0\<rparr>)"
    by blast
  have "(\<lambda>p. if p < MAX_CLIENTS then Some \<lparr>sock = int p + 4, name = nm\<rparr>
             else if p < MAX_CLIENTS then Some \<lparr>sock = int p + 4, name = []\<rparr> else None) =
        (\<lambda>p. if p < MAX_CLIENTS then Some \<lparr>sock = int p + 4, name = nm\<rparr> else None)"
    and "(\<lambda>p. if p < MAX_CLIENTS then Some InLoop
             else if p < MAX_CLIENTS then Some AwaitingName else None) =
        (\<lambda>p. if p < MAX_CLIENTS then Some InLoop else None)"
    by (auto simp: fun_eq_iff)
  with name_many [OF assms, of MAX_CLIENTS t0] obtain t1 where
    "run (map (\<lambda>p. Rx p (Bytes nm)) [0..<MAX_CLIENTS]) (full_server\<lparr>trace := t0\<rparr>) =
        Some (full_named nm\<lparr>trace := t1\<rparr>)"
    by (auto simp: full_named_def)
  with a show ?thesis
    by (auto simp: run_append)
qed

subsection \<open>The names the server stores\<close>

lemma c_strncpy_name:
  "CHR 0x00 \<notin> set (c_strncpy buf (NAME_LEN - 1)) \<and> length (c_strncpy buf (NAME_LEN - 1)) < NAME_LEN"
proof
  have "set (take (NAME_LEN - 1) (c_str buf)) \<subseteq> set (c_str buf)"
    by (rule set_take_subset)
  moreover have "CHR 0x00 \<notin> set (c_str buf)"
    by (auto simp: c_str_def dest: set_takeWhileD)
  ultimately show "CHR 0x00 \<notin> set (c_strncpy buf (NAME_LEN - 1))"
    by (auto simp: c_strncpy_def)
  show "length (c_strncpy buf (NAME_LEN - 1)) < NAME_LEN"
    by (simp add: c_strncpy_def NAME_LEN_def)
qed

lemma step_names:
  assumes "step i st = Some st'"
    and "\<And>p c. heap st p = Some c \<Longrightarrow> CHR 0x00 \<notin> set (name c) \<and> length (name c) < NAME_LEN"
    and "heap st' p = Some c"
  shows "CHR 0x00 \<notin> set (name c) \<and> length (name c) < NAME_LEN"
proof (cases i)
  case (Conn conn q)
  with assms(1,3) have "heap st p = Some c \<or> name c = []"
    by (auto simp: main_accept_def add_client_def dest!: notify_userlist_frame
        split: if_splits Option.bind_splits)
  with assms(2) show ?thesis
    by (auto simp: NAME_LEN_def)
next
  case (Rx cli r)
  show ?thesis
  proof (cases "threads st cli")
    case None
    with assms Rx show ?thesis by simp
  next
    case (Some q)
    show ?thesis
    proof (cases q)
      case AwaitingName
      with Some Rx assms(1,3)
      have "heap st p = Some c \<or> (\<exists>buf. name c = c_strncpy buf (NAME_LEN - 1))"
        by (fastforce simp: handle_client_name_def remove_client_def thread_exit_def c_free_def
            c_close_def Let_def dest!: notify_userlist_frame broadcast_frame
            split: option.splits if_splits Option.bind_splits)
      with assms(2) c_strncpy_name show ?thesis
        by auto
    next
      case InLoop
      with Some Rx assms(1,3) have "heap st p = Some c"
        by (auto simp: handle_client_loop_def handle_client_disconnect_def remove_client_def
            thread_exit_def c_free_def c_close_def Let_def
            dest!: notify_userlist_frame broadcast_frame handle_message_frame
            split: option.splits if_splits Option.bind_splits)
      with assms(2) show ?thesis
        by blast
    qed
  qed
qed

lemma run_names:
  "run is st = Some st' \<Longrightarrow>
   (\<And>p c. heap st p = Some c \<Longrightarrow> CHR 0x00 \<notin> set (name c) \<and> length (name c) < NAME_LEN) \<Longrightarrow>
   heap st' p = Some c \<Longrightarrow> CHR 0x00 \<notin> set (name c) \<and> length (name c) < NAME_LEN"
proof (induction "is" arbitrary: st)
  case Nil
  then show ?case by simp
next
  case (Cons i "is")
  from Cons.prems(1) obtain st1 where s: "step i st = Some st1" and r: "run is st1 = Some st'"
    by (auto split: option.splits)
  show ?case
    using r _ Cons.prems(3)
  proof (rule Cons.IH)
    fix q d
    assume "heap st1 q = Some d"
    with s Cons.prems(2) show "CHR 0x00 \<notin> set (name d) \<and> length (name d) < NAME_LEN"
      by (rule step_names)
  qed
qed

lemma stored_names:
  "run is init_server = Some st \<Longrightarrow> heap st p = Some c \<Longrightarrow>
   CHR 0x00 \<notin> set (name c) \<and> length (name c) < NAME_LEN"
  by (erule run_names) (simp_all add: init_server_def)

section \<open>The claims\<close>

subsection \<open>C1: a connection accepted while the table is full\<close>

text \<open>
  C1, as the specification states it, fails: \<^verbatim>\<open>add_client\<close> returns nothing, and
  \<^verbatim>\<open>main\<close> goes on as for any connection. In the full table no slot is free. When
  the connection 1028 is accepted with the block \<open>MAX_CLIENTS\<close>, the accept step
  returns normally, the table is as before, a session thread for the block is
  waiting for the name, and socket 1028 is not closed.
\<close>

theorem C1_counterexample:
  "None \<notin> set (clients full_server) \<and>
   map_option
     (\<lambda>st. (clients st = clients full_server, threads st MAX_CLIENTS,
            filter (\<lambda>e. e = Close 1028) (trace st)))
     (main_accept 1028 MAX_CLIENTS full_server) =
   Some (True, Some AwaitingName, [])"
proof -
  have "length (userlist_line (map (\<lambda>p. \<lparr>sock = int p + 4, name = []\<rparr>) [0..<MAX_CLIENTS])) < BUF_SIZE"
    by (simp add: userlist_line_unnamed MAX_CLIENTS_def BUF_SIZE_def)
  from main_accept_full [OF _ _ _ full_server_records this, of 1028 MAX_CLIENTS]
  show ?thesis
    by (simp add: full_server_def filter_map comp_def)
qed

text \<open>
  C1, amended. When no slot of the table is free, \<^verbatim>\<open>add_client\<close> reports nothing and
  leaves the table as it is, so the new connection is not registered; it still runs
  \<^verbatim>\<open>notify_userlist\<close>. When the user list line of the registered clients fits
  \<^verbatim>\<open>list[BUF_SIZE]\<close>, the line is sent to every registered client, and \<^verbatim>\<open>main\<close> does
  not close the connection and starts the session thread for it as for any other
  connection. When the line does not fit, \<^verbatim>\<open>strcat\<close> overflows the buffer and the
  source does not determine what happens (\<open>None\<close>). \<open>rs\<close> are the records of the
  registered clients.
\<close>

theorem C1_accept_on_full_table:
  assumes "None \<notin> set (clients st)" and "0 \<le> conn" and "heap st p = None"
    and "map (heap st) (registered (clients st)) = map Some rs"
  shows "main_accept conn p st =
         (if length (userlist_line rs) < BUF_SIZE
          then Some (st\<lparr>heap := (heap st)(p \<mapsto> \<lparr>sock = conn, name = []\<rparr>),
                       threads := (threads st)(p \<mapsto> AwaitingName),
                       trace := trace st @ map (\<lambda>r. Send (sock r) (userlist_line rs)) rs\<rparr>)
          else None)
         \<and> p \<notin> set (registered (clients st))"
  using main_accept_full_total [OF assms] records_allocated [OF assms(4)] assms(3)
  by blast

theorem C1_accept_on_full_table_witness:
  "main_accept 1028 MAX_CLIENTS (full_named ''ab'') =
     Some (full_named ''ab''\<lparr>
       heap := (heap (full_named ''ab''))(MAX_CLIENTS \<mapsto> \<lparr>sock = 1028, name = []\<rparr>),
       threads := (threads (full_named ''ab''))(MAX_CLIENTS \<mapsto> AwaitingName),
       trace := map (\<lambda>r. Send (sock r)
                    (userlist_line (map (\<lambda>p. \<lparr>sock = int p + 4, name = ''ab''\<rparr>) [0..<MAX_CLIENTS])))
                  (map (\<lambda>p. \<lparr>sock = int p + 4, name = ''ab''\<rparr>) [0..<MAX_CLIENTS])\<rparr>)
   \<and> MAX_CLIENTS \<notin> set (registered (clients (full_named ''ab'')))
   \<and> main_accept 1028 MAX_CLIENTS (full_named ''abc'') = None
   \<and> main_accept 1028 MAX_CLIENTS full_server =
     Some (full_server\<lparr>
       heap := (heap full_server)(MAX_CLIENTS \<mapsto> \<lparr>sock = 1028, name = []\<rparr>),
       threads := (threads full_server)(MAX_CLIENTS \<mapsto> AwaitingName),
       trace := map (\<lambda>r. Send (sock r) (CHR 0x01 # ''USERS:'' @ replicate MAX_CLIENTS (CHR '','')))
                  (map (\<lambda>p. \<lparr>sock = int p + 4, name = []\<rparr>) [0..<MAX_CLIENTS])\<rparr>)"
proof -
  have ab: "length (userlist_line (map (\<lambda>p. \<lparr>sock = int p + 4, name = ''ab''\<rparr>) [0..<MAX_CLIENTS]))
      < BUF_SIZE"
    by (simp add: userlist_line_named MAX_CLIENTS_def BUF_SIZE_def)
  have abc: "\<not> length (userlist_line (map (\<lambda>p. \<lparr>sock = int p + 4, name = ''abc''\<rparr>) [0..<MAX_CLIENTS]))
      < BUF_SIZE"
    by (simp add: userlist_line_named MAX_CLIENTS_def BUF_SIZE_def)
  have un: "length (userlist_line (map (\<lambda>p. \<lparr>sock = int p + 4, name = []\<rparr>) [0..<MAX_CLIENTS]))
      < BUF_SIZE"
    by (simp add: userlist_line_unnamed MAX_CLIENTS_def BUF_SIZE_def)
  have 1: "main_accept 1028 MAX_CLIENTS (full_named ''ab'') =
     Some (full_named ''ab''\<lparr>
       heap := (heap (full_named ''ab''))(MAX_CLIENTS \<mapsto> \<lparr>sock = 1028, name = []\<rparr>),
       threads := (threads (full_named ''ab''))(MAX_CLIENTS \<mapsto> AwaitingName),
       trace := map (\<lambda>r. Send (sock r)
                    (userlist_line (map (\<lambda>p. \<lparr>sock = int p + 4, name = ''ab''\<rparr>) [0..<MAX_CLIENTS])))
                  (map (\<lambda>p. \<lparr>sock = int p + 4, name = ''ab''\<rparr>) [0..<MAX_CLIENTS])\<rparr>)
     \<and> MAX_CLIENTS \<notin> set (registered (clients (full_named ''ab'')))"
    using C1_accept_on_full_table [OF _ _ _ full_named_records, of "''ab''" 1028 MAX_CLIENTS] ab
    by (simp add: full_named_def)
  have 2: "main_accept 1028 MAX_CLIENTS (full_named ''abc'') = None"
    using C1_accept_on_full_table [OF _ _ _ full_named_records, of "''abc''" 1028 MAX_CLIENTS] abc
    by (simp add: full_named_def)
  have 3: "main_accept 1028 MAX_CLIENTS full_server =
     Some (full_server\<lparr>
       heap := (heap full_server)(MAX_CLIENTS \<mapsto> \<lparr>sock = 1028, name = []\<rparr>),
       threads := (threads full_server)(MAX_CLIENTS \<mapsto> AwaitingName),
       trace := map (\<lambda>r. Send (sock r) (CHR 0x01 # ''USERS:'' @ replicate MAX_CLIENTS (CHR '','')))
                  (map (\<lambda>p. \<lparr>sock = int p + 4, name = []\<rparr>) [0..<MAX_CLIENTS])\<rparr>)"
    using C1_accept_on_full_table [OF _ _ _ full_server_records, of 1028 MAX_CLIENTS] un
    by (simp add: full_server_def userlist_line_unnamed)
  from 1 2 3 show ?thesis
    by blast
qed

subsection \<open>C2: the user list updates\<close>




subsection \<open>C3: who a broadcast is written to\<close>

text \<open>
  C3, as the specification states it, fails: an entry is in the table from
  \<^verbatim>\<open>add_client\<close> on, before its name is read. Two connections are accepted; the second
  sends its name \<open>bob\<close> and the message \<open>hi\<close>. The first (block 0, socket 5) has sent
  nothing: its thread is waiting for the name and its name is empty. The broadcast
  is written to socket 5 all the same.
\<close>

theorem C3_counterexample:
  "map_option
     (\<lambda>st. (threads st 0, map_option name (heap st 0), drop 6 (trace st)))
     (run [Conn 5 0, Conn 6 1, Rx 1 (Bytes ''bob''), Rx 1 (Bytes ''hi'')] init_server) =
   Some (Some AwaitingName, Some [],
         [Send 5 ''bob: hi\<newline>'', Send 6 ''bob: hi\<newline>'', Log ''bob: hi\<newline>''])"
  by (simp add: server_defs free_slots)

text \<open>
  C3, amended. In every state \<open>st\<close> the server reaches from its start by any sequence
  \<open>is\<close> of accepted connections and reads: the scan of the table that \<^verbatim>\<open>broadcast\<close>
  makes under the mutex visits every slot that is not \<^verbatim>\<open>NULL\<close>, in slot order, and
  writes the line to each of these entries, whether or not the name of the entry has
  been read (an entry has no state of its own, and is in the table from
  \<^verbatim>\<open>add_client\<close> on); then the line is logged. A removed entry is not visited: the
  pointer that \<^verbatim>\<open>remove_client\<close> cleared is no more in the table. (\<open>rs\<close> are the
  records of the entries in the table, in slot order.)
\<close>

theorem C3_broadcast_recipients:
  assumes "run is init_server = Some st"
  shows "\<exists>rs. map (heap st) (registered (clients st)) = map Some rs \<and>
           broadcast sender msg st =
             Some (st\<lparr>trace := trace st @
                     map (\<lambda>r. Send (sock r) (broadcast_line sender msg)) rs @
                     [Log (broadcast_line sender msg)]\<rparr>) \<and>
           cl \<notin> set (registered (remove_loop (clients st) cl))"
proof -
  from assms have ok: "table_ok st"
    by (rule reachable_table_ok)
  then obtain rs where rs: "map (heap st) (registered (clients st)) = map Some rs"
    using table_ok_records by blast
  from ok have "cl \<notin> set (registered (remove_loop (clients st) cl))"
    by (simp add: table_ok_def registered_remove_loop)
  with rs broadcast_records [OF rs] show ?thesis
    by blast
qed

theorem C3_broadcast_recipients_witness:
  "broadcast ''bob'' ''hi'' bob_and_silent =
     Some (bob_and_silent\<lparr>trace := trace bob_and_silent @
       [Send 5 ''bob: hi\<newline>'', Send 6 ''bob: hi\<newline>'', Log ''bob: hi\<newline>'']\<rparr>)
   \<and> 1 \<notin> set (registered (remove_loop (clients bob_and_silent) 1))"
proof -
  from C3_broadcast_recipients [OF bob_and_silent_reachable, of "''bob''" "''hi''" 1]
  obtain rs where
    rs: "map (heap bob_and_silent) (registered (clients bob_and_silent)) = map Some rs"
    and b: "broadcast ''bob'' ''hi'' bob_and_silent =
       Some (bob_and_silent\<lparr>trace := trace bob_and_silent @
               map (\<lambda>r. Send (sock r) (broadcast_line ''bob'' ''hi'')) rs @
               [Log (broadcast_line ''bob'' ''hi'')]\<rparr>)"
    and n: "1 \<notin> set (registered (remove_loop (clients bob_and_silent) 1))"
    by blast
  from rs have "rs = [\<lparr>sock = 5, name = []\<rparr>, \<lparr>sock = 6, name = ''bob''\<rparr>]"
    by (auto simp: bob_and_silent_def free_slots)
  with b n show ?thesis
    by (simp add: broadcast_line_def c_snprintf_def c_str_def BUF_SIZE_def)
qed

subsection \<open>C4: the recipient name and the body of a private message\<close>

text \<open>
  C4, as the specification states it, fails. The message \<open>@\<close>, thirty-one \<open>a\<close>, \<open>bcd\<close>
  has no space; the scan stops at the limit of \<open>NAME_LEN - 1\<close> bytes, the target is
  the truncated prefix, and the body is \<open>bcd\<close>, not empty.
\<close>

theorem C4_counterexample:
  "parse_private ''@aaaaaaaaaaaaaaaaaaaaaaaaaaaaaaabcd'' =
     (''aaaaaaaaaaaaaaaaaaaaaaaaaaaaaaa'', ''bcd'')"
  by (simp add: parse_private_closed NAME_LEN_def)

text \<open>
  C4, amended. For every message \<open>buf\<close> the private branch parses, the target is the
  longest run of bytes after the first that holds no space and has at most
  \<open>NAME_LEN - 1\<close> bytes, and the body is the rest of \<open>buf\<close> from where the scan
  stopped. So: when a space ends the run, the body starts with that space; when
  there is no space and \<open>buf\<close> has at most \<open>NAME_LEN\<close> bytes, the target is all that
  follows the first byte and the body is empty; when the first \<open>NAME_LEN - 1\<close> bytes
  after the first hold no space and more bytes follow, the target is that prefix and
  the body is what follows it, which is not empty.
\<close>

theorem C4_parse_private:
  "parse_private buf =
     (takeWhile (\<lambda>c. c \<noteq> CHR '' '') (take (NAME_LEN - 1) (drop 1 buf)),
      drop (1 + length (takeWhile (\<lambda>c. c \<noteq> CHR '' '') (take (NAME_LEN - 1) (drop 1 buf)))) buf)
   \<and> (CHR '' '' \<notin> set t \<and> length t < NAME_LEN \<longrightarrow>
        parse_private (x # t @ CHR '' '' # rest) = (t, CHR '' '' # rest))
   \<and> (CHR '' '' \<notin> set (drop 1 buf) \<and> length buf \<le> NAME_LEN \<longrightarrow>
        parse_private buf = (drop 1 buf, []))
   \<and> (CHR '' '' \<notin> set (take (NAME_LEN - 1) (drop 1 buf)) \<and> NAME_LEN < length buf \<longrightarrow>
        parse_private buf = (take (NAME_LEN - 1) (drop 1 buf), drop NAME_LEN buf) \<and>
        drop NAME_LEN buf \<noteq> [])"
  using parse_private_closed [of buf] parse_private_space [of t x rest]
    parse_private_short [of buf] parse_private_long [of buf]
  by auto

theorem C4_parse_private_witness:
  "parse_private ''@bob hello'' = (''bob'', '' hello'') \<and>
   parse_private ''@bob'' = (''bob'', []) \<and>
   parse_private ''@aaaaaaaaaaaaaaaaaaaaaaaaaaaaaaabcd'' =
     (''aaaaaaaaaaaaaaaaaaaaaaaaaaaaaaa'', ''bcd'')"
  using C4_parse_private [of "''@bob''" "''bob''" "CHR ''@''" "''hello''"]
    C4_parse_private [of "''@aaaaaaaaaaaaaaaaaaaaaaaaaaaaaaabcd''"]
  by (simp add: NAME_LEN_def)

subsection \<open>C5: a private message to \<open>bob\<close>\<close>

text \<open>
  C5, as the specification states it, fails on the text of the line. \<open>alice\<close> and
  \<open>bob\<close> join; \<open>alice\<close> sends \<open>@bob hello\<close>. The body is the rest of the message
  from the space on, so the line that is logged and written to \<open>bob\<close> (socket 6)
  and \<open>alice\<close> (socket 5) has two spaces after the colon; the line with one
  space is written to nobody.
\<close>

theorem C5_counterexample:
  "map_option (\<lambda>st. drop 8 (trace st))
     (run [Conn 5 0, Rx 0 (Bytes ''alice''), Conn 6 1, Rx 1 (Bytes ''bob''),
           Rx 0 (Bytes ''@bob hello'')] init_server) =
     Some [Log ''(private) alice -> bob:  hello\<newline>'',
           Send 6 ''(private) alice -> bob:  hello\<newline>'',
           Send 5 ''(private) alice -> bob:  hello\<newline>'']
   \<and> ''(private) alice -> bob:  hello\<newline>'' \<noteq> ''(private) alice -> bob: hello\<newline>''"
  by (simp add: server_defs free_slots)

text \<open>
  C5, amended. When the client \<open>alice\<close> sends \<open>@bob hello\<close>, the server logs the line
  \<open>(private) alice -> bob:  hello\<close> (two spaces after the colon, and a newline) once,
  then writes it to the first registered client named \<open>bob\<close>, if there is one, and
  then to \<open>alice\<close>; when no registered client is named \<open>bob\<close> it is logged once and
  written to \<open>alice\<close> only, and nothing else happens. \<open>rs\<close> are the records of the
  registered clients in slot order.
\<close>

theorem C5_private_to_bob:
  assumes "heap st cli = Some c" and "name c = ''alice''"
    and "map (heap st) (registered (clients st)) = map Some rs"
  shows "handle_message cli ''@bob hello'' st =
         Some (st\<lparr>trace := trace st @
                 Log ''(private) alice -> bob:  hello\<newline>'' #
                 (case find (\<lambda>r. name r = ''bob'') rs of
                    None \<Rightarrow> []
                  | Some r \<Rightarrow> [Send (sock r) ''(private) alice -> bob:  hello\<newline>'']) @
                 [Send (sock c) ''(private) alice -> bob:  hello\<newline>'']\<rparr>)"
proof -
  have "parse_private ''@bob hello'' = (''bob'', '' hello'')"
    by (simp add: parse_private_closed NAME_LEN_def)
  moreover have "private_line (name c) ''bob'' '' hello'' = ''(private) alice -> bob:  hello\<newline>''"
    using assms(2) by (simp add: private_line_def c_snprintf_def c_str_def BUF_SIZE_def)
  moreover have "c_str ''bob'' = ''bob''"
    by (simp add: c_str_def)
  ultimately show ?thesis
    using handle_message_private [OF assms(1) _ assms(3), of "''@bob hello''" "''bob''" "'' hello''"]
    by (simp cong: option.case_cong)
qed

theorem C5_private_to_bob_witness:
  "handle_message 0 ''@bob hello'' two_clients =
     Some (two_clients\<lparr>trace :=
       [Log ''(private) alice -> bob:  hello\<newline>'',
        Send 6 ''(private) alice -> bob:  hello\<newline>'',
        Send 5 ''(private) alice -> bob:  hello\<newline>'']\<rparr>)
   \<and> handle_message 0 ''@bob hello'' (two_clients\<lparr>clients := remove_loop (clients two_clients) 1\<rparr>) =
     Some (two_clients\<lparr>clients := remove_loop (clients two_clients) 1, trace :=
       [Log ''(private) alice -> bob:  hello\<newline>'',
        Send 5 ''(private) alice -> bob:  hello\<newline>'']\<rparr>)"
proof
  have "heap two_clients 0 = Some \<lparr>sock = 5, name = ''alice''\<rparr>"
    by (simp add: two_clients_def)
  from C5_private_to_bob [OF this _ two_clients_records]
  show "handle_message 0 ''@bob hello'' two_clients =
     Some (two_clients\<lparr>trace :=
       [Log ''(private) alice -> bob:  hello\<newline>'',
        Send 6 ''(private) alice -> bob:  hello\<newline>'',
        Send 5 ''(private) alice -> bob:  hello\<newline>'']\<rparr>)"
    by (simp add: two_clients_def)
next
  let ?st = "two_clients\<lparr>clients := remove_loop (clients two_clients) 1\<rparr>"
  have h: "heap ?st 0 = Some \<lparr>sock = 5, name = ''alice''\<rparr>"
    by (simp add: two_clients_def)
  have r: "map (heap ?st) (registered (clients ?st)) = map Some [\<lparr>sock = 5, name = ''alice''\<rparr>]"
    by (simp add: two_clients_def free_slots)
  from C5_private_to_bob [OF h _ r]
  show "handle_message 0 ''@bob hello'' ?st =
     Some (?st\<lparr>trace :=
       [Log ''(private) alice -> bob:  hello\<newline>'',
        Send 5 ''(private) alice -> bob:  hello\<newline>'']\<rparr>)"
    by (simp add: two_clients_def)
qed

subsection \<open>C6: a connection that ends before it sent a name\<close>

text \<open>
  C6, as the specification states it, fails on the Registry entry: \<^verbatim>\<open>main\<close> registers
  the connection when it accepts it. \<open>bob\<close> has joined (socket 5); a second
  connection (block 1, socket 6) is accepted and is in the table; the user list with
  its empty name is sent, and the broadcast of \<open>hi\<close> is written to socket 6. Then
  its name read returns zero bytes: the socket is closed, the entry leaves the table
  and the user list is sent again. No announcement is written for it.
\<close>

theorem C6_counterexample:
  "map_option (\<lambda>st. registered (clients st))
     (run [Conn 5 0, Rx 0 (Bytes ''bob''), Conn 6 1] init_server) = Some [0, 1]
   \<and> map_option (\<lambda>st. (registered (clients st), drop 3 (trace st)))
     (run [Conn 5 0, Rx 0 (Bytes ''bob''), Conn 6 1, Rx 0 (Bytes ''hi''), Rx 1 Eof]
        init_server) =
     Some ([0],
       [Send 5 (CHR 0x01 # ''USERS:bob,,''), Send 6 (CHR 0x01 # ''USERS:bob,,''),
        Send 5 ''bob: hi\<newline>'', Send 6 ''bob: hi\<newline>'', Log ''bob: hi\<newline>'',
        Close 6,
        Send 5 (CHR 0x01 # ''USERS:bob,'')])"
  by (simp add: server_defs free_slots)

text \<open>
  C6, amended. In every state \<open>st\<close> the server reaches from its start by any
  sequence \<open>is\<close> of accepted connections and reads, a connection whose name read
  returns zero bytes or an error produces no join announcement and no leave
  announcement. Its Registry entry, which \<^verbatim>\<open>main\<close> made at accept when a slot was
  free, is removed: the step closes the socket,
  clears the slot, runs \<^verbatim>\<open>notify_userlist\<close> for the clients that remain and ends the
  thread, whatever arrives later, so that the table holds no entry for the
  connection afterwards. Accepting it wrote nothing but the user list. This holds
  when the user list line of the clients that remain fits \<^verbatim>\<open>list[BUF_SIZE]\<close>; when
  it does not, \<^verbatim>\<open>strcat\<close> overflows the buffer after the close and the source does not
  determine what happens (\<open>None\<close>). \<open>rs\<close> are the records of the clients that
  remain.
\<close>

theorem C6_no_name_no_announcement:
  assumes "run is init_server = Some st"
    and "threads st cli = Some AwaitingName" and "heap st cli = Some c"
    and "c_recv (NAME_LEN - 1) r = None"
    and "map (heap st) (remove1 cli (registered (clients st))) = map Some rs"
  shows "step (Rx cli r) st =
         (if length (userlist_line rs) < BUF_SIZE
          then Some (st\<lparr>clients := remove_loop (clients st) cli,
                       heap := (heap st)(cli := None),
                       threads := (threads st)(cli := None),
                       trace := trace st @ Close (sock c) #
                         map (\<lambda>r. Send (sock r) (userlist_line rs)) rs\<rparr>)
          else None)
       \<and> handle_client cli (r # later) st = step (Rx cli r) st
       \<and> cli \<notin> set (registered (remove_loop (clients st) cli))
       \<and> filter is_announcement
            (Close (sock c) # map (\<lambda>r. Send (sock r) (userlist_line rs)) rs) = []
       \<and> (main_accept conn cli st0 = Some st1 \<longrightarrow>
            filter is_announcement (drop (length (trace st0)) (trace st1)) = [] \<and>
            (0 \<le> conn \<and> None \<in> set (clients st0) \<longrightarrow> cli \<in> set (registered (clients st1))))"
proof -
  from assms(1) have "distinct (registered (clients st))"
    using reachable_table_ok by (simp add: table_ok_def)
  then show ?thesis
    using name_fail_total [OF assms(3,4,5)] assms(2,4)
      main_accept_no_announcement [of conn cli st0 st1]
      main_accept_registers [of conn cli st0 st1]
    by (simp add: registered_remove_loop userlist_line_no_announcement)
qed

theorem C6_no_name_no_announcement_witness:
  "run [Conn 5 0, Rx 0 Eof] init_server =
     Some (init_server\<lparr>trace := [Send 5 (CHR 0x01 # ''USERS:,''), Close 5]\<rparr>)"
proof -
  let ?st = "init_server\<lparr>clients := Some 0 # replicate (MAX_CLIENTS - 1) None,
                     heap := [0 \<mapsto> \<lparr>sock = 5, name = []\<rparr>],
                     threads := [0 \<mapsto> AwaitingName],
                     trace := [Send 5 (CHR 0x01 # ''USERS:,'')]\<rparr>"
  have accept: "main_accept 5 0 init_server = Some ?st"
    by (simp add: server_defs free_slots)
  then have reach: "run [Conn 5 0] init_server = Some ?st"
    by simp
  have "None # replicate 1023 None = replicate 1024 (None :: nat option)"
    using replicate_Suc [of 1023 "None :: nat option"] by simp
  then have "step (Rx 0 Eof) ?st =
     Some (init_server\<lparr>trace := [Send 5 (CHR 0x01 # ''USERS:,''), Close 5]\<rparr>)"
    using C6_no_name_no_announcement [OF reach, of 0 "\<lparr>sock = 5, name = []\<rparr>" Eof "[]",
        THEN conjunct1]
    by (simp add: init_server_def free_slots userlist_line_def BUF_SIZE_def MAX_CLIENTS_def)
  with accept show ?thesis
    by simp
qed

subsection \<open>C7: the order of the teardown\<close>

text \<open>
  C7, as the specification states it, fails on the order. \<open>alice\<close> (socket 5) and
  \<open>bob\<close> (socket 6) have joined and the read of \<open>alice\<close> returns zero bytes. The
  session closes socket 5, then broadcasts the leave announcement, which is written
  to socket 5 as well since \<open>alice\<close> is still in the table, and only then removes
  the entry and sends the user list.
\<close>

theorem C7_counterexample:
  "map_option (\<lambda>st. drop 8 (trace st))
     (run [Conn 5 0, Rx 0 (Bytes ''alice''), Conn 6 1, Rx 1 (Bytes ''bob''), Rx 0 Eof]
        init_server) =
   Some [Close 5,
         Send 5 ''server: *** alice left\<newline>'',
         Send 6 ''server: *** alice left\<newline>'',
         Log ''server: *** alice left\<newline>'',
         Send 6 (CHR 0x01 # ''USERS:bob,'')]"
  by (simp add: server_defs free_slots)

text \<open>
  C7, amended. When the read in the loop returns zero bytes or an error, the loop
  ends, whatever arrives later, and the session performs its teardown in this order:
  it closes the transport handle; it broadcasts the leave announcement to every
  client registered at that moment (the entry of the session is still in the table)
  and logs it; it calls \<^verbatim>\<open>remove_client\<close>, which clears the slot and runs
  \<^verbatim>\<open>notify_userlist\<close> for the clients that remain. When their user list line fits
  \<^verbatim>\<open>list[BUF_SIZE]\<close>, the line is sent to them, the entry is freed and the thread
  ends. When it does not fit, \<^verbatim>\<open>strcat\<close> overflows the buffer after the close and the
  leave announcement, and the source does not determine what happens (\<open>None\<close>).
  \<open>rs\<close> are the records of the registered clients before, \<open>rs'\<close> those of the
  clients that remain.
\<close>

theorem C7_teardown_order:
  assumes "heap st cli = Some c" and "c_recv (BUF_SIZE - 1) r = None"
    and "map (heap st) (registered (clients st)) = map Some rs"
    and "map (heap st) (remove1 cli (registered (clients st))) = map Some rs'"
  shows "handle_client_while cli (r # later) st = handle_client_loop cli r st \<and>
         handle_client_loop cli r st =
         (if length (userlist_line rs') < BUF_SIZE
          then Some (st\<lparr>clients := remove_loop (clients st) cli,
                 heap := (heap st)(cli := None),
                 threads := (threads st)(cli := None),
                 trace := trace st @ Close (sock c) #
                   map (\<lambda>r. Send (sock r)
                     (broadcast_line ''server'' (c_snprintf 128 (''*** '' @ name c @ '' left'')))) rs @
                   Log (broadcast_line ''server'' (c_snprintf 128 (''*** '' @ name c @ '' left''))) #
                   map (\<lambda>r. Send (sock r) (userlist_line rs')) rs'\<rparr>)
          else None)"
  using disconnect_total [OF assms(1,3,4)] assms(2)
  by (simp add: handle_client_loop_def)

theorem C7_teardown_order_witness:
  "handle_client_loop 0 Eof two_clients =
     Some (two_clients\<lparr>clients := None # Some 1 # replicate (MAX_CLIENTS - 2) None,
                        heap := [1 \<mapsto> \<lparr>sock = 6, name = ''bob''\<rparr>],
                        threads := [1 \<mapsto> InLoop],
                        trace := [Close 5,
                                  Send 5 ''server: *** alice left\<newline>'',
                                  Send 6 ''server: *** alice left\<newline>'',
                                  Log ''server: *** alice left\<newline>'',
                                  Send 6 (CHR 0x01 # ''USERS:bob,'')]\<rparr>)
   \<and> handle_client_loop 0 Eof (full_named ''abc'') = None"
proof
  show "handle_client_loop 0 Eof two_clients =
     Some (two_clients\<lparr>clients := None # Some 1 # replicate (MAX_CLIENTS - 2) None,
                        heap := [1 \<mapsto> \<lparr>sock = 6, name = ''bob''\<rparr>],
                        threads := [1 \<mapsto> InLoop],
                        trace := [Close 5,
                                  Send 5 ''server: *** alice left\<newline>'',
                                  Send 6 ''server: *** alice left\<newline>'',
                                  Log ''server: *** alice left\<newline>'',
                                  Send 6 (CHR 0x01 # ''USERS:bob,'')]\<rparr>)"
    using C7_teardown_order [of two_clients 0 "\<lparr>sock = 5, name = ''alice''\<rparr>" Eof
      "[\<lparr>sock = 5, name = ''alice''\<rparr>, \<lparr>sock = 6, name = ''bob''\<rparr>]"
      "[\<lparr>sock = 6, name = ''bob''\<rparr>]"]
    by (simp add: two_clients_def free_slots userlist_line_def broadcast_line_def c_snprintf_def
      c_str_def BUF_SIZE_def fun_upd_twist)
next
  let ?new = "\<lambda>p. \<lparr>sock = int p + 4, name = ''abc''\<rparr>"
  have pos: "0 < MAX_CLIENTS"
    by (simp add: MAX_CLIENTS_def)
  then have "[0..<MAX_CLIENTS] = 0 # [Suc 0..<MAX_CLIENTS]"
    by (rule upt_conv_Cons)
  then have rest: "map (heap (full_named ''abc'')) (remove1 0 (registered (clients (full_named ''abc'')))) =
      map Some (map ?new [Suc 0..<MAX_CLIENTS])"
    by (simp add: full_named_def registered_Some)
  have c: "heap (full_named ''abc'') 0 = Some (?new 0)"
    using pos by (simp add: full_named_def)
  have "length [Suc 0..<MAX_CLIENTS] = 1023"
    by (simp add: MAX_CLIENTS_def)
  then have "\<not> length (userlist_line (map ?new [Suc 0..<MAX_CLIENTS])) < BUF_SIZE"
    by (simp only: userlist_line_named) (simp add: BUF_SIZE_def)
  with C7_teardown_order [OF c _ full_named_records rest, of Eof]
  show "handle_client_loop 0 Eof (full_named ''abc'') = None"
    by simp
qed

subsection \<open>C8: a client message that starts like the user list line\<close>

text \<open>
  C8, as the specification states it, fails: the server has no case for the control
  byte. \<open>alice\<close> and \<open>bob\<close> have joined and \<open>alice\<close> sends the byte \<open>0x01\<close> and
  \<open>USERS:eve,\<close>. The message is a public message like any other: it is prefixed with
  the sender, written to both sockets and logged.
\<close>

theorem C8_counterexample:
  "map_option (\<lambda>st. drop 8 (trace st))
     (run [Conn 5 0, Rx 0 (Bytes ''alice''), Conn 6 1, Rx 1 (Bytes ''bob''),
           Rx 0 (Bytes (CHR 0x01 # ''USERS:eve,''))] init_server) =
     Some [Send 5 (''alice: '' @ CHR 0x01 # ''USERS:eve,\<newline>''),
           Send 6 (''alice: '' @ CHR 0x01 # ''USERS:eve,\<newline>''),
           Log (''alice: '' @ CHR 0x01 # ''USERS:eve,\<newline>'')]"
  by (simp add: server_defs free_slots)

text \<open>
  C8, amended. An inbound message that begins with the control byte \<open>0x01\<close> and
  \<open>USERS:\<close> gets no treatment of its own. Its first byte is not \<open>@\<close>, so it is a
  public message: the line \<open>sender: message\<close> with a newline is written to every
  registered client, in slot order, and then logged once.
\<close>

theorem C8_control_prefix_is_public:
  assumes "heap st cli = Some c" and "take 7 buf = CHR 0x01 # ''USERS:''"
    and "map (heap st) (registered (clients st)) = map Some rs"
  shows "handle_message cli buf st =
         Some (st\<lparr>trace := trace st @
                 map (\<lambda>r. Send (sock r) (broadcast_line (name c) buf)) rs @
                 [Log (broadcast_line (name c) buf)]\<rparr>)"
proof -
  from assms(2) have "hd buf \<noteq> CHR ''@''"
    by (cases buf) auto
  with assms(1) show ?thesis
    using assms(3) by (rule handle_message_public)
qed

theorem C8_control_prefix_is_public_witness:
  "handle_message 0 (CHR 0x01 # ''USERS:eve,'') two_clients =
     Some (two_clients\<lparr>trace :=
       [Send 5 (''alice: '' @ CHR 0x01 # ''USERS:eve,\<newline>''),
        Send 6 (''alice: '' @ CHR 0x01 # ''USERS:eve,\<newline>''),
        Log (''alice: '' @ CHR 0x01 # ''USERS:eve,\<newline>'')]\<rparr>)"
proof -
  have "heap two_clients 0 = Some \<lparr>sock = 5, name = ''alice''\<rparr>"
    by (simp add: two_clients_def)
  from C8_control_prefix_is_public [OF this _ two_clients_records, of "CHR 0x01 # ''USERS:eve,''"]
  show ?thesis
    by (simp add: two_clients_def broadcast_line_def c_snprintf_def c_str_def BUF_SIZE_def)
qed

subsection \<open>C9: the user list, from the server to the client\<close>

text \<open>
  C9, as stated for every roster of non-empty names, fails for a name with a comma.
  A client joins as \<open>a,b\<close>; a second client joins and leaves, so that the last user
  list line, written to the first client, is that of the roster with the one name
  \<open>a,b\<close>. The client that receives it shows the two users \<open>a\<close> and \<open>b\<close>.
\<close>

theorem C9_counterexample:
  "map_option (\<lambda>st. last (trace st))
     (run [Conn 5 0, Rx 0 (Bytes ''a,b''), Conn 6 1, Rx 1 (Bytes ''c''), Rx 1 Eof]
        init_server) =
     Some (Send 5 (CHR 0x01 # ''USERS:a,b,''))
   \<and> users (recv_thread (CHR 0x01 # ''USERS:a,b,'') \<lparr>users = [], center = []\<rparr>) = [''a'', ''b'']"
  by (simp add: server_defs free_slots recv_thread_def update_userlist_def)

text \<open>
  C9, amended. For every roster whose names hold no comma: the line that
  \<^verbatim>\<open>notify_userlist\<close> builds from it (the control byte, \<open>USERS:\<close>, every name followed
  by a comma), received in one read by \<^verbatim>\<open>recv_thread\<close>, yields in the user window
  exactly the names of the roster that are not empty, in the order of the roster.
  (\<open>rs\<close> are the records of the registered clients, whose line fits the buffer; a
  name the server has stored holds no NUL.)
\<close>

theorem C9_userlist_roundtrip:
  assumes "map h (registered cs) = map Some rs"
    and "length (userlist_line rs) < BUF_SIZE"
    and "\<forall>r \<in> set rs. CHR '','' \<notin> set (name r) \<and> CHR 0x00 \<notin> set (name r)"
  shows "userlist_loop h cs (CHR 0x01 # ''USERS:'') = Some (userlist_line rs)
       \<and> users (recv_thread (userlist_line rs) ui) = filter (\<lambda>n. n \<noteq> []) (map name rs)"
  using userlist_loop_records [OF assms(1), of "CHR 0x01 # ''USERS:''"] assms(2)
    recv_thread_userlist [OF assms(2,3)]
  by (simp add: userlist_line_def)

theorem C9_userlist_roundtrip_witness:
  "userlist_loop (heap two_clients) (clients two_clients) (CHR 0x01 # ''USERS:'') =
     Some (CHR 0x01 # ''USERS:alice,bob,'')
   \<and> users (recv_thread (CHR 0x01 # ''USERS:alice,bob,'') \<lparr>users = [], center = []\<rparr>) =
     [''alice'', ''bob'']"
  using C9_userlist_roundtrip [OF two_clients_records, of "\<lparr>users = [], center = []\<rparr>"]
  by (simp add: userlist_line_def BUF_SIZE_def)

subsection \<open>C10: a private message to oneself\<close>

text \<open>
  C10, as stated for every registered client, fails when an earlier slot holds a
  client of the same name. Two clients join as \<open>bob\<close>; the second (block 1, socket
  6) sends \<open>@bob hi\<close>. \<^verbatim>\<open>find_by_name\<close> returns the first (block 0), and the line is
  written once to socket 5 and once to socket 6.
\<close>

theorem C10_counterexample:
  "Option.bind
     (run [Conn 5 0, Rx 0 (Bytes ''bob''), Conn 6 1, Rx 1 (Bytes ''bob'')] init_server)
     (find_by_name ''bob'') = Some (Some 0)
   \<and> map_option (\<lambda>st. drop 8 (trace st))
     (run [Conn 5 0, Rx 0 (Bytes ''bob''), Conn 6 1, Rx 1 (Bytes ''bob''),
           Rx 1 (Bytes ''@bob hi'')] init_server) =
     Some [Log ''(private) bob -> bob:  hi\<newline>'',
           Send 5 ''(private) bob -> bob:  hi\<newline>'',
           Send 6 ''(private) bob -> bob:  hi\<newline>'']"
  by (simp add: server_defs free_slots)

text \<open>
  C10, amended. Let the client \<open>cli\<close> be registered, with \<open>ps\<close> the pointers in the
  slots before its own, and let no client in those slots have its name; let the name
  hold no space. When \<open>cli\<close> sends \<open>@\<close>, its name, a space and any bytes,
  \<^verbatim>\<open>find_by_name\<close> returns \<open>cli\<close> itself, and the private line is logged once and
  then written twice to the socket of \<open>cli\<close>. (A name the server has stored holds
  no NUL and has less than \<open>NAME_LEN\<close> bytes.)
\<close>

theorem C10_private_to_self:
  assumes "registered (clients st) = ps @ cli # qs"
    and "map (heap st) ps = map Some rs1"
    and "\<forall>r \<in> set rs1. name r \<noteq> name c"
    and "heap st cli = Some c"
    and "CHR '' '' \<notin> set (name c)" and "CHR 0x00 \<notin> set (name c)"
    and "length (name c) < NAME_LEN"
  shows "find_by_name (name c) st = Some (Some cli) \<and>
         handle_message cli (CHR ''@'' # name c @ CHR '' '' # body) st =
         Some (st\<lparr>trace := trace st @
                 [Log (private_line (name c) (name c) (CHR '' '' # body)),
                  Send (sock c) (private_line (name c) (name c) (CHR '' '' # body)),
                  Send (sock c) (private_line (name c) (name c) (CHR '' '' # body))]\<rparr>)"
proof -
  have cs: "c_str (name c) = name c"
    using assms(6) by (rule c_str_no_nul)
  have f: "find_by_name (name c) st = Some (Some cli)"
    unfolding find_by_name_def
    using assms(1,2) _ assms(4) by (rule find_loop_first) (simp_all add: cs assms(3))
  have "parse_private (CHR ''@'' # name c @ CHR '' '' # body) = (name c, CHR '' '' # body)"
    using assms(5,7) by (intro parse_private_space) simp
  with f assms(4) show ?thesis
    by (simp add: handle_message_def log_msg_def send_to_sock_def Let_def)
qed

theorem C10_private_to_self_witness:
  "find_by_name ''bob'' two_clients = Some (Some 1) \<and>
   handle_message 1 ''@bob hi'' two_clients =
     Some (two_clients\<lparr>trace :=
       [Log ''(private) bob -> bob:  hi\<newline>'',
        Send 6 ''(private) bob -> bob:  hi\<newline>'',
        Send 6 ''(private) bob -> bob:  hi\<newline>'']\<rparr>)"
proof -
  have "registered (clients two_clients) = [0] @ 1 # []"
    by (simp add: two_clients_def free_slots)
  moreover have "map (heap two_clients) [0] = map Some [\<lparr>sock = 5, name = ''alice''\<rparr>]"
    by (simp add: two_clients_def)
  moreover have "heap two_clients 1 = Some \<lparr>sock = 6, name = ''bob''\<rparr>"
    by (simp add: two_clients_def)
  ultimately show ?thesis
    using C10_private_to_self [of two_clients "[0]" 1 "[]" "[\<lparr>sock = 5, name = ''alice''\<rparr>]"
        "\<lparr>sock = 6, name = ''bob''\<rparr>" "''hi''"]
    by (simp add: NAME_LEN_def BUF_SIZE_def private_line_def c_snprintf_def c_str_def
        two_clients_def)
qed

end
